theory Spec2Isabelle
  imports
    Main
    "HOL-Library.Multiset"
    "HOL-Library.Char_ord"
    "HOL-Library.List_Lexorder"
begin

section \<open>go-app-builder/parser.go: data model\<close>

text \<open>
  Go strings are byte sequences compared bytewise; \<open>string\<close> (a list of 8-bit
  \<open>char\<close>s) with the lexicographic order of \<open>List_Lexorder\<close> over \<open>Char_ord\<close>
  is the same order, and \<open>length\<close> is Go's \<open>len\<close>.

  A \<open>*Package\<close> is an address. Packages live in a heap that maps every address
  to the Package stored there; two packages are the same package only when their
  addresses are equal, whatever their fields hold. The lists of this model hold
  non-nil pointers; a nil pointer only arises in the local variables \<open>min\<close> and
  \<open>dep\<close> of \<open>findCycle\<close>, where it is written \<open>None\<close>.

  Field names are the source's, but for \<open>File.HasInit\<close> and \<open>App.Files\<close>, which
  are \<open>FileHasInit\<close> and \<open>AppFiles\<close> here (a record's fields share one name
  space).
\<close>

type_synonym ptr = nat

record File =
  Name :: string
  PackageName :: string
  ImportPaths :: "string list"
  FileHasInit :: bool

record Package =
  ImportPath :: string
  Files :: "File list"
  BaseDir :: string
  Dependencies :: "ptr list"
  HasInit :: bool
  Dupe :: bool

type_synonym heap = "ptr \<Rightarrow> Package"

text \<open>A run-time panic of the Go program.\<close>

datatype panic = NilPointerDereference | IndexOutOfRange | SliceBoundsOutOfRange | TypeAssertion

section \<open>findCycle\<close>

text \<open>
  The first loop of \<open>findCycle\<close>: \<open>minp\<close> (the source's \<open>min\<close>) is the first
  package of the list whose import path is smallest (the comparison is strict, so an
  earlier package wins a tie).
\<close>

fun findMin :: "heap \<Rightarrow> ptr option \<Rightarrow> ptr list \<Rightarrow> ptr option" where
  "findMin h minp [] = minp"
| "findMin h minp (pkg # pkgs) =
     findMin h
       (case minp of
          None \<Rightarrow> Some pkg
        | Some m \<Rightarrow> if ImportPath (h pkg) < ImportPath (h m) then Some pkg else Some m)
       pkgs"

text \<open>
  \<open>for _, dep := range last.Dependencies { if i, ok := seen[dep]; ok { return cycle[i:] } }\<close>:
  the index stored for the first dependency that has been seen.
\<close>

fun firstSeen :: "(ptr \<rightharpoonup> nat) \<Rightarrow> ptr list \<Rightarrow> nat option" where
  "firstSeen seen [] = None"
| "firstSeen seen (dep # deps) =
     (case seen dep of Some i \<Rightarrow> Some i | None \<Rightarrow> firstSeen seen deps)"

text \<open>
  The second inner loop: the first dependency that is in \<open>pkgMap\<close>, or nil.
  \<open>pkgMap\<close> holds exactly the packages of \<open>pkgs\<close>.
\<close>

fun firstInMap :: "ptr list \<Rightarrow> ptr list \<Rightarrow> ptr option" where
  "firstInMap pkgs [] = None"
| "firstInMap pkgs (d # ds) = (if d \<in> set pkgs then Some d else firstInMap pkgs ds)"

text \<open>
  The walk \<open>for { ... }\<close>. When no dependency of \<open>last\<close> is in \<open>pkgMap\<close>, the
  source appends nil to \<open>cycle\<close> and the next iteration reads \<open>last.Dependencies\<close>
  of that nil pointer: a panic.
\<close>

function findCycle_loop ::
  "heap \<Rightarrow> ptr list \<Rightarrow> ptr list \<Rightarrow> (ptr \<rightharpoonup> nat) \<Rightarrow> panic + ptr list" where
  "findCycle_loop h pkgs cycle seen =
     (if cycle = [] then Inl IndexOutOfRange
      else
        (case firstSeen seen (Dependencies (h (last cycle))) of
           Some i \<Rightarrow>
             if i \<le> length cycle then Inr (drop i cycle) else Inl SliceBoundsOutOfRange
         | None \<Rightarrow>
             (case firstInMap pkgs (Dependencies (h (last cycle))) of
                None \<Rightarrow> Inl NilPointerDereference
              | Some dep \<Rightarrow>
                  findCycle_loop h pkgs (cycle @ [dep]) (seen(dep \<mapsto> length cycle)))))"
  by pat_completeness auto

lemma firstSeen_None: "firstSeen seen deps = None \<Longrightarrow> d \<in> set deps \<Longrightarrow> seen d = None"
  by (induction deps) (auto split: option.splits)

lemma firstInMap_Some: "firstInMap pkgs deps = Some d \<Longrightarrow> d \<in> set deps \<and> d \<in> set pkgs"
  by (induction deps) (auto split: if_splits)

termination findCycle_loop
proof (relation "measure (\<lambda>(h, pkgs, cycle, seen). card (set pkgs - dom seen))")
  show "wf (measure (\<lambda>(h, pkgs, cycle, seen). card (set pkgs - dom seen)))"
    by simp
next
  fix h :: heap and pkgs cycle :: "ptr list" and seen :: "ptr \<rightharpoonup> nat" and dep
  assume ns: "firstSeen seen (Dependencies (h (last cycle))) = None"
    and fm: "firstInMap pkgs (Dependencies (h (last cycle))) = Some dep"
  from firstInMap_Some [OF fm] have d: "dep \<in> set (Dependencies (h (last cycle)))" "dep \<in> set pkgs"
    by simp_all
  from firstSeen_None [OF ns d(1)] have "dep \<notin> dom seen"
    by auto
  with d(2) have "set pkgs - dom (seen(dep \<mapsto> length cycle)) \<subset> set pkgs - dom seen"
    by auto
  then have "card (set pkgs - dom (seen(dep \<mapsto> length cycle))) < card (set pkgs - dom seen)"
    by (intro psubset_card_mono) simp_all
  then show "((h, pkgs, cycle @ [dep], seen(dep \<mapsto> length cycle)), (h, pkgs, cycle, seen))
      \<in> measure (\<lambda>(h, pkgs, cycle, seen). card (set pkgs - dom seen))"
    by simp
qed

declare findCycle_loop.simps [simp del]

text \<open>
  \<open>findCycle\<close>. On an empty list \<open>min\<close> stays nil, \<open>cycle\<close> is \<open>[nil]\<close> and the
  first iteration reads \<open>last.Dependencies\<close> of nil.
\<close>

definition findCycle :: "heap \<Rightarrow> ptr list \<Rightarrow> panic + ptr list" where
  "findCycle h pkgs =
     (case findMin h None pkgs of
        None \<Rightarrow> Inl NilPointerDereference
      | Some minp \<Rightarrow> findCycle_loop h pkgs [minp] [minp \<mapsto> 0])"

section \<open>topologicalSort\<close>

text \<open>
  One sweep of the working list (the loop labelled \<open>packageLoop\<close>): \<open>i\<close> is the
  index, \<open>n\<close> the count of packages moved to the front. \<open>p[i], p[n] = p[n], pkg\<close>
  reads \<open>p[n]\<close> before either store.
\<close>

function sweep ::
  "heap \<Rightarrow> nat \<Rightarrow> nat \<Rightarrow> ptr list \<Rightarrow> ptr set \<Rightarrow> nat \<times> ptr list \<times> ptr set" where
  "sweep h i n p selected =
     (if i < length p then
        (let pkg = p ! i in
         if list_all (\<lambda>dep. dep \<in> selected) (Dependencies (h pkg))
         then sweep h (i + 1) (n + 1) (p[i := p ! n, n := pkg]) (insert pkg selected)
         else sweep h (i + 1) n p selected)
      else (n, p, selected))"
  by pat_completeness auto
termination
  by (relation "measure (\<lambda>(h, i, n, p, selected). length p - i)") auto

declare sweep.simps [simp del]

text \<open>\<open>strings.Join\<close>.\<close>

fun strings_Join :: "string list \<Rightarrow> string \<Rightarrow> string" where
  "strings_Join [] sep = []"
| "strings_Join [a] sep = a"
| "strings_Join (a # b # as) sep = a @ sep @ strings_Join (b # as) sep"

text \<open>
  The branch \<open>n == 0\<close>: the import paths of the cycle with the first one repeated,
  joined into the error message. \<open>cycle[0]\<close> panics on an empty slice.
\<close>

definition cyclePaths :: "heap \<Rightarrow> ptr list \<Rightarrow> panic + string list" where
  "cyclePaths h cycle =
     (case cycle of
        [] \<Rightarrow> Inl IndexOutOfRange
      | c0 # _ \<Rightarrow> Inr (map (\<lambda>pkg. ImportPath (h pkg)) cycle @ [ImportPath (h c0)]))"

definition cycleError :: "string list \<Rightarrow> string" where
  "cycleError paths = ''parser: cyclic dependency graph: '' @ strings_Join paths '' -> ''"

lemma sweep_length: "sweep h i n p selected = (n', p', selected') \<Longrightarrow> length p' = length p"
  by (induction h i n p selected rule: sweep.induct)
     (subst (asm) (2) sweep.simps, auto simp: Let_def split: if_splits)

text \<open>
  The outer loop \<open>for len(p) > 0\<close>. The slice \<open>p\<close> is a window on the caller's
  array: \<open>front\<close> is the part of the array before the window, which \<open>p = p[n:]\<close>
  extends. The result is the caller's array after the call and the returned error
  (\<open>None\<close> is nil).
\<close>

function topologicalSort_loop ::
  "heap \<Rightarrow> ptr list \<Rightarrow> ptr list \<Rightarrow> ptr set \<Rightarrow> panic + (ptr list \<times> string option)" where
  "topologicalSort_loop h front p selected =
     (if length p > 0 then
        (case sweep h 0 0 p selected of
           (n, p', selected') \<Rightarrow>
             if n = 0 then
               (case findCycle h p' of
                  Inl pn \<Rightarrow> Inl pn
                | Inr cycle \<Rightarrow>
                    (case cyclePaths h cycle of
                       Inl pn \<Rightarrow> Inl pn
                     | Inr paths \<Rightarrow> Inr (front @ p', Some (cycleError paths))))
             else topologicalSort_loop h (front @ take n p') (drop n p') selected')
      else Inr (front, None))"
  by pat_completeness auto
termination
  apply (relation "measure (\<lambda>(h, front, p, selected). length p)")
   apply simp
  apply (auto dest: sweep_length [OF sym])
  done

declare topologicalSort_loop.simps [simp del]

definition topologicalSort :: "heap \<Rightarrow> ptr list \<Rightarrow> panic + (ptr list \<times> string option)" where
  "topologicalSort h p = topologicalSort_loop h [] p {}"

section \<open>checkImport\<close>

text \<open>
  The character class \<open>[a-zA-Z0-9_\-./~]\<close> of \<open>legalImportPath\<close>. The regexp
  engine reads UTF-8 runes; a byte outside ASCII is part of a rune outside the class,
  so the test on bytes rejects the same strings.
\<close>

definition legalImportPath_class :: "char \<Rightarrow> bool" where
  "legalImportPath_class c \<longleftrightarrow>
     (CHR ''a'' \<le> c \<and> c \<le> CHR ''z'') \<or> (CHR ''A'' \<le> c \<and> c \<le> CHR ''Z'')
     \<or> (CHR ''0'' \<le> c \<and> c \<le> CHR ''9'')
     \<or> c = CHR ''_'' \<or> c = CHR ''-'' \<or> c = CHR ''.'' \<or> c = CHR ''/'' \<or> c = CHR ''~''"

text \<open>\<open>legalImportPath.MatchString\<close> for \<open>^[a-zA-Z0-9_\-./~]+$\<close>: one or more
  characters of the class, up to the end of the text.\<close>

fun legalImportPath_MatchString :: "string \<Rightarrow> bool" where
  "legalImportPath_MatchString [] = False"
| "legalImportPath_MatchString (c # cs) =
     (legalImportPath_class c \<and> (cs = [] \<or> legalImportPath_MatchString cs))"

text \<open>\<open>strings.HasPrefix\<close> and \<open>strings.Contains\<close>.\<close>

definition strings_HasPrefix :: "string \<Rightarrow> string \<Rightarrow> bool" where
  "strings_HasPrefix s prefix \<longleftrightarrow> length s \<ge> length prefix \<and> take (length prefix) s = prefix"

fun strings_Contains :: "string \<Rightarrow> string \<Rightarrow> bool" where
  "strings_Contains [] substr = (substr = [])"
| "strings_Contains (c # s) substr =
     (strings_HasPrefix (c # s) substr \<or> strings_Contains s substr)"

text \<open>\<open>filepath.IsAbs\<close> of the standard library, as on Unix: the path begins with a slash.\<close>

definition filepath_IsAbs :: "string \<Rightarrow> bool" where
  "filepath_IsAbs path = strings_HasPrefix path ''/''"

definition checkImport :: "string \<Rightarrow> bool" where
  "checkImport path =
     (if path = [] then False
      else if length path > 1024 then False
      else if filepath_IsAbs path \<or> strings_Contains path ''..'' then False
      else if \<not> legalImportPath_MatchString path then False
      else if path = ''syscall'' \<or> path = ''unsafe'' then False
      else True)"

section \<open>The literal tagging check: compLitChecker\<close>

text \<open>
  The part of \<open>go/ast\<close> the checker looks at. A source position is a number
  (\<open>fset.Position\<close> maps it to file, line and column one to one). The node kinds
  the checker tells apart have their own constructors with the fields it reads;
  \<open>OtherNode\<close> is any other node, with its children in the order \<open>ast.Walk\<close>
  visits them. \<open>SelectorExpr.Sel\<close> and \<open>ImportSpec.Name\<close> are identifiers
  (position and name), \<open>ImportSpec.Path\<close> is a basic literal (position and value).
  \<open>FuncDecl\<close> holds what \<open>isInit\<close> reads: whether \<open>Recv\<close> is non-nil, the
  name, \<open>Type.Params.NumFields()\<close> and \<open>Type.Results.NumFields()\<close>.
\<close>

type_synonym pos = nat

datatype token = IMPORT | CONST | TYPE | VAR

datatype node =
    Ident pos string
  | BasicLit pos string
  | ImportSpec "(pos \<times> string) option" pos string
  | SelectorExpr node pos string
  | KeyValueExpr node node
  | CompositeLit "node option" pos "node list"
  | GenDecl pos token "node list"
  | FuncDecl pos bool string nat nat "node list"
  | AstFile pos string "node list"
  | OtherNode pos "node list"

text \<open>\<open>node.Pos()\<close>.\<close>

fun node_Pos :: "node \<Rightarrow> pos" where
  "node_Pos (Ident p _) = p"
| "node_Pos (BasicLit p _) = p"
| "node_Pos (ImportSpec None p _) = p"
| "node_Pos (ImportSpec (Some (np, _)) _ _) = np"
| "node_Pos (SelectorExpr x _ _) = node_Pos x"
| "node_Pos (KeyValueExpr k _) = node_Pos k"
| "node_Pos (CompositeLit None lbrace _) = lbrace"
| "node_Pos (CompositeLit (Some t) _ _) = node_Pos t"
| "node_Pos (GenDecl p _ _) = p"
| "node_Pos (FuncDecl p _ _ _ _ _) = p"
| "node_Pos (AstFile p _ _) = p"
| "node_Pos (OtherNode p _) = p"

text \<open>
  The children \<open>ast.Walk\<close> descends into, in its order. The comment groups that
  hang off a declaration or a spec are left out: the checker returns itself on them
  and on the comments below them.
\<close>

fun children :: "node \<Rightarrow> node list" where
  "children (Ident _ _) = []"
| "children (BasicLit _ _) = []"
| "children (ImportSpec None p v) = [BasicLit p v]"
| "children (ImportSpec (Some (np, n)) p v) = [Ident np n, BasicLit p v]"
| "children (SelectorExpr x sp s) = [x, Ident sp s]"
| "children (KeyValueExpr k v) = [k, v]"
| "children (CompositeLit None _ elts) = elts"
| "children (CompositeLit (Some t) _ elts) = t # elts"
| "children (GenDecl _ _ specs) = specs"
| "children (FuncDecl _ _ _ _ _ cs) = cs"
| "children (AstFile p name decls) = Ident p name # decls"
| "children (OtherNode _ cs) = cs"

record scanner_Error =
  Pos :: pos
  Msg :: string

record compLitChecker =
  "imports" :: "string \<rightharpoonup> string"
  errors :: "scanner_Error list"

text \<open>
  What the program takes from outside this file: whether the \<open>ctxt.Import\<close> of
  \<open>isStandardPackage\<close> finds a package with a non-empty import path; what
  \<open>ctxt.ImportDir\<close> finds in a directory through the overlay (no Go files left,
  another error, or the \<open>GoFiles\<close> of the package); \<open>strconv.Unquote\<close>; the
  frontend \<open>parser.ParseFile\<close> (by base directory and file name);
  \<open>untaggedLiteralWhitelist\<close> as declared in another file of the package (before
  \<open>init\<close> runs); the flags \<open>-pkg_dupes\<close> (split at the commas), \<open>-gopath\<close> and
  \<open>-nobuild_files\<close>; \<open>regexp.Compile\<close> (the match function of a pattern, or
  \<open>None\<close> when it does not compile); \<open>filepath.Dir\<close> and \<open>filepath.Join\<close> of
  two elements; the lookup behind \<open>gopathPackage\<close> (name, files, imports and
  directory of a package found under GOPATH); the number \<open>rng.Intn(1e5)\<close> returns;
  and the order in which the runtime ranges over a map with string keys, given the
  loop (over \<open>dirs\<close>, over \<open>pkgFiles\<close>, or over the \<open>imports\<close> of a package)
  and the keys.
\<close>

record build_Package =
  pkg_Name :: string
  pkg_GoFiles :: "string list"
  pkg_Imports :: "string list"
  pkg_Dir :: string

datatype import_result = NoGoError | ImportError string | Imported "string list"

datatype range_site = RangeDirs | RangePkgFiles | RangeImports ptr

record env =
  ctxt_Import :: "string \<Rightarrow> bool"
  ctxt_ImportDir :: "string \<Rightarrow> import_result"
  strconv_Unquote :: "string \<Rightarrow> string option"
  parser_ParseFile :: "string \<Rightarrow> string \<Rightarrow> string + (pos \<times> string \<times> node list)"
  declaredWhitelist :: "string \<Rightarrow> bool"
  pkgDupes :: "string list"
  goPath :: string
  noBuildFiles :: string
  regexp_Compile :: "string \<Rightarrow> (string \<Rightarrow> bool) option"
  filepath_Dir :: "string \<Rightarrow> string"
  filepath_Join :: "string \<Rightarrow> string \<Rightarrow> string"
  gopathPackage :: "string \<Rightarrow> build_Package option"
  rand_Intn :: nat
  rangeOrder :: "range_site \<Rightarrow> string list \<Rightarrow> string list"

text \<open>
  \<open>isStandardPackage\<close>. The cache only remembers earlier answers of the same
  computation, so it is left out.
\<close>

definition isStandardPackage :: "env \<Rightarrow> string \<Rightarrow> bool" where
  "isStandardPackage e s = (if strings_Contains s ''.'' then False else ctxt_Import e s)"

text \<open>\<open>init\<close>: two more entries in the whitelist.\<close>

definition untaggedLiteralWhitelist :: "env \<Rightarrow> string \<Rightarrow> bool" where
  "untaggedLiteralWhitelist e s \<longleftrightarrow>
     s = ''appengine/datastore.PropertyList'' \<or> s = ''appengine.MultiError''
     \<or> declaredWhitelist e s"

text \<open>\<open>filepath.Base\<close> of the standard library, as on Unix.\<close>

definition filepath_Base :: "string \<Rightarrow> string" where
  "filepath_Base path =
     (if path = [] then ''.''
      else
        (let stripped = rev (dropWhile (\<lambda>c. c = CHR ''/'') (rev path));
             elem = rev (takeWhile (\<lambda>c. c \<noteq> CHR ''/'') (rev stripped))
         in if elem = [] then ''/'' else elem))"

definition newCompLitChecker :: compLitChecker where
  "newCompLitChecker = \<lparr>imports = Map.empty, errors = []\<rparr>"

text \<open>\<open>errorf\<close> appends one error at the position of the node.\<close>

definition errorf :: "compLitChecker \<Rightarrow> node \<Rightarrow> string \<Rightarrow> compLitChecker" where
  "errorf c n msg = c\<lparr>errors := errors c @ [\<lparr>Pos = node_Pos n, Msg = msg\<rparr>]\<rparr>"

fun isKeyValueExpr :: "node \<Rightarrow> bool" where
  "isKeyValueExpr (KeyValueExpr _ _) = True"
| "isKeyValueExpr _ = False"

text \<open>
  \<open>Visit\<close>. The node is \<open>None\<close> for the closing call \<open>v.Visit(nil)\<close> of
  \<open>ast.Walk\<close>. The visitor returned is always the checker itself, here the
  updated checker.
\<close>

fun Visit :: "env \<Rightarrow> compLitChecker \<Rightarrow> node option \<Rightarrow> compLitChecker" where
  "Visit e c (Some (ImportSpec name p v)) =
     (let pth = (case strconv_Unquote e v of Some s \<Rightarrow> s | None \<Rightarrow> []) in
      if \<not> isStandardPackage e pth then c
      else
        (case name of
           Some (np, ident) \<Rightarrow>
             if ident = ''.'' then c else c\<lparr>imports := (imports c)(ident \<mapsto> pth)\<rparr>
         | None \<Rightarrow> c\<lparr>imports := (imports c)(filepath_Base pth \<mapsto> pth)\<rparr>))"
| "Visit e c (Some (CompositeLit (Some (SelectorExpr (Ident ip ident) sp sel)) lbrace elts)) =
     (case imports c ident of
        None \<Rightarrow> c
      | Some pth \<Rightarrow>
          if untaggedLiteralWhitelist e (pth @ ''.'' @ sel) then c
          else
            (let allTags = list_all isKeyValueExpr elts in
             if \<not> allTags
             then errorf c (CompositeLit (Some (SelectorExpr (Ident ip ident) sp sel)) lbrace elts)
                    (''composite struct literal '' @ pth @ ''.'' @ sel @ '' with untagged fields'')
             else c))"
| "Visit e c _ = c"

text \<open>\<open>ast.Walk\<close> with the checker as visitor.\<close>

definition walkMeasure :: "node \<Rightarrow> nat" where
  "walkMeasure n = (case n of ImportSpec _ _ _ \<Rightarrow> 1 | _ \<Rightarrow> 2 * size n)"

lemma walkMeasure_le: "walkMeasure ch \<le> Suc (2 * size ch)"
  by (cases ch) (simp_all add: walkMeasure_def)

lemma walkMeasure_list:
  "ch \<in> set cs \<Longrightarrow> walkMeasure ch < 2 * Suc (size_list size cs)"
proof -
  assume "ch \<in> set cs"
  then have "size ch \<le> size_list size cs"
    by (simp add: size_list_estimation')
  with walkMeasure_le [of ch] show ?thesis by simp
qed

lemma children_walkMeasure: "ch \<in> set (children n) \<Longrightarrow> walkMeasure ch < walkMeasure n"
proof (cases n)
  case (ImportSpec name p v)
  then show "ch \<in> set (children n) \<Longrightarrow> walkMeasure ch < walkMeasure n"
    by (cases name) (auto simp: walkMeasure_def)
next
  case (SelectorExpr x sp s)
  then show "ch \<in> set (children n) \<Longrightarrow> walkMeasure ch < walkMeasure n"
    using walkMeasure_le [of x] by (auto simp: walkMeasure_def)
next
  case (KeyValueExpr k v)
  then show "ch \<in> set (children n) \<Longrightarrow> walkMeasure ch < walkMeasure n"
    using walkMeasure_le [of k] walkMeasure_le [of v] by (auto simp: walkMeasure_def)
next
  case (CompositeLit t lb elts)
  show "ch \<in> set (children n) \<Longrightarrow> walkMeasure ch < walkMeasure n"
  proof (cases t)
    case None
    with CompositeLit show "ch \<in> set (children n) \<Longrightarrow> walkMeasure ch < walkMeasure n"
      using walkMeasure_list [of ch elts] by (auto simp: walkMeasure_def)
  next
    case (Some ty)
    with CompositeLit show "ch \<in> set (children n) \<Longrightarrow> walkMeasure ch < walkMeasure n"
      using walkMeasure_list [of ch elts] walkMeasure_le [of ty] by (auto simp: walkMeasure_def)
  qed
next
  case (GenDecl p t specs)
  then show "ch \<in> set (children n) \<Longrightarrow> walkMeasure ch < walkMeasure n"
    using walkMeasure_list [of ch specs] by (auto simp: walkMeasure_def)
next
  case (FuncDecl p r nm a b cs)
  then show "ch \<in> set (children n) \<Longrightarrow> walkMeasure ch < walkMeasure n"
    using walkMeasure_list [of ch cs] by (auto simp: walkMeasure_def)
next
  case (AstFile p nm decls)
  then show "ch \<in> set (children n) \<Longrightarrow> walkMeasure ch < walkMeasure n"
    using walkMeasure_list [of ch decls] by (auto simp: walkMeasure_def)
next
  case (OtherNode p cs)
  then show "ch \<in> set (children n) \<Longrightarrow> walkMeasure ch < walkMeasure n"
    using walkMeasure_list [of ch cs] by (auto simp: walkMeasure_def)
qed simp_all

function Walk :: "env \<Rightarrow> compLitChecker \<Rightarrow> node \<Rightarrow> compLitChecker" where
  "Walk e c n = Visit e (fold (\<lambda>ch c'. Walk e c' ch) (children n) (Visit e c (Some n))) None"
  by pat_completeness auto
termination
  by (relation "measure (\<lambda>(e, c, n). walkMeasure n)") (auto simp: children_walkMeasure)

declare Walk.simps [simp del]

section \<open>parseFile\<close>

text \<open>
  The errors \<open>ParseFiles\<close> can return, by kind, with the values their messages are
  formatted from; \<open>CyclicDependency\<close> carries the whole message. \<open>Panicked\<close> is a
  run-time panic instead of a return.
\<close>

datatype error =
    FrontendError string
  | BadImportSpec string
  | BadImport string
  | UntaggedLiterals "scanner_Error list"
  | BadFilename string
  | FailedParsingDir string
  | TopLevelMainForbidden
  | SameNameAsStandardPackage string
  | BadNoBuildFiles
  | AllFilesExcluded string
  | CyclicDependency string
  | Panicked panic

text \<open>\<open>isInit\<close>, on the fields of a \<open>FuncDecl\<close>.\<close>

definition isInit :: "bool \<Rightarrow> string \<Rightarrow> nat \<Rightarrow> nat \<Rightarrow> bool" where
  "isInit hasRecv name numParams numResults \<longleftrightarrow>
     name = ''init'' \<and> \<not> hasRecv \<and> numParams = 0 \<and> numResults = 0"

text \<open>
  The loop over the specs of an import declaration. \<open>spec.(*ast.ImportSpec)\<close>
  panics on any other node.
\<close>

fun scanSpecs :: "env \<Rightarrow> string list \<Rightarrow> node list \<Rightarrow> error + string list" where
  "scanSpecs e imps [] = Inr imps"
| "scanSpecs e imps (ImportSpec name p val # specs) =
     (case strconv_Unquote e val of
        None \<Rightarrow> Inl (BadImportSpec val)
      | Some path \<Rightarrow>
          if \<not> checkImport path then Inl (BadImport path)
          else scanSpecs e (imps @ [path]) specs)"
| "scanSpecs e imps (_ # specs) = Inl (Panicked TypeAssertion)"

text \<open>The loop over \<open>file.Decls\<close>: the imports and whether there is an init function.\<close>

fun scanDecls ::
  "env \<Rightarrow> string list \<times> bool \<Rightarrow> node list \<Rightarrow> error + (string list \<times> bool)" where
  "scanDecls e (imps, hasInit) [] = Inr (imps, hasInit)"
| "scanDecls e (imps, hasInit) (GenDecl p IMPORT specs # decls) =
     (case scanSpecs e imps specs of
        Inl err \<Rightarrow> Inl err
      | Inr imps' \<Rightarrow> scanDecls e (imps', hasInit) decls)"
| "scanDecls e (imps, hasInit) (FuncDecl p hasRecv name numParams numResults cs # decls) =
     scanDecls e (imps, hasInit \<or> isInit hasRecv name numParams numResults) decls"
| "scanDecls e (imps, hasInit) (_ # decls) = scanDecls e (imps, hasInit) decls"

definition parseFile :: "env \<Rightarrow> string \<Rightarrow> string \<Rightarrow> error + File" where
  "parseFile e baseDir filename =
     (case parser_ParseFile e baseDir filename of
        Inl err \<Rightarrow> Inl (FrontendError err)
      | Inr (p, name, decls) \<Rightarrow>
          (case scanDecls e ([], False) decls of
             Inl err \<Rightarrow> Inl err
           | Inr (imps, hasInit) \<Rightarrow>
               (let ch = Walk e newCompLitChecker (AstFile p name decls) in
                if length (errors ch) > 0 then Inl (UntaggedLiterals (errors ch))
                else Inr \<lparr>Name = filename, PackageName = name, ImportPaths = imps,
                          FileHasInit = hasInit\<rparr>)))"

section \<open>ParseFiles: assembling the App\<close>

text \<open>
  The App together with the memory its \<open>*Package\<close> pointers point into: \<open>mem\<close>
  holds the packages, \<open>brk\<close> is the next address that \<open>&Package{...}\<close> returns.
\<close>

record App =
  mem :: heap
  brk :: ptr
  AppFiles :: "File list"
  Packages :: "ptr list"
  RootPackages :: "ptr list"
  PackageIndex :: "string \<rightharpoonup> ptr"

definition newApp :: "File list \<Rightarrow> App" where
  "newApp files =
     \<lparr>mem = (\<lambda>_. \<lparr>ImportPath = [], Files = [], BaseDir = [], Dependencies = [],
                     HasInit = False, Dupe = False\<rparr>),
      brk = 0, AppFiles = files, Packages = [], RootPackages = [], PackageIndex = Map.empty\<rparr>"

text \<open>\<open>fmt.Sprintf("main%05d", n)\<close>: the decimal digits of \<open>n\<close>, padded with zeros
  to five.\<close>

definition digit :: "nat \<Rightarrow> char" where
  "digit d = ''0123456789'' ! (d mod 10)"

function decimal :: "nat \<Rightarrow> string" where
  "decimal n = (if n < 10 then [digit n] else decimal (n div 10) @ [digit (n mod 10)])"
  by pat_completeness auto
termination
  by (relation "measure id") auto

declare decimal.simps [simp del]

definition Sprintf_main05d :: "nat \<Rightarrow> string" where
  "Sprintf_main05d n =
     ''main'' @ replicate (5 - length (decimal n)) CHR ''0'' @ decimal n"

text \<open>\<open>filepath.ToSlash\<close>, as on Unix, where the separator is the slash.\<close>

definition filepath_ToSlash :: "string \<Rightarrow> string" where
  "filepath_ToSlash path = path"

text \<open>
  The loop \<open>// Create Package objects\<close> over the map \<open>pkgFiles\<close>, given as the
  list of its entries (directory and files) in the order the runtime ranges over it.
\<close>

fun createPackages :: "env \<Rightarrow> App \<Rightarrow> (string \<times> File list) list \<Rightarrow> error + App" where
  "createPackages e app [] = Inr app"
| "createPackages e app ((dirname, files) # rest) =
     (let imp = (if dirname = ''.'' then Sprintf_main05d (rand_Intn e)
                 else filepath_ToSlash dirname)
      in if imp = ''main'' then Inl TopLevelMainForbidden
         else if isStandardPackage e imp \<and> imp \<notin> set (pkgDupes e)
           then Inl (SameNameAsStandardPackage imp)
         else
           (let p = \<lparr>ImportPath = imp, Files = files, BaseDir = [], Dependencies = [],
                     HasInit = list_ex FileHasInit files, Dupe = isStandardPackage e imp\<rparr>;
                a = brk app
            in createPackages e
                 (app\<lparr>mem := (mem app)(a := p), brk := a + 1,
                      Packages := Packages app @ [a],
                      RootPackages := (if HasInit p then RootPackages app @ [a]
                                       else RootPackages app),
                      PackageIndex := (PackageIndex app)(imp \<mapsto> a)\<rparr>)
                 rest))"

text \<open>
  \<open>addFromGOPATH\<close>. The files of a package found under GOPATH that the
  exclusion pattern does not match.
\<close>

definition gopathFiles ::
  "env \<Rightarrow> (string \<Rightarrow> bool) option \<Rightarrow> string \<Rightarrow> build_Package \<Rightarrow> File list" where
  "gopathFiles e noBuild path pkg =
     map (\<lambda>f. \<lparr>Name = f, PackageName = pkg_Name pkg, ImportPaths = pkg_Imports pkg,
               FileHasInit = False\<rparr>)
       (filter (\<lambda>f. \<not> (case noBuild of None \<Rightarrow> False
                        | Some re \<Rightarrow> re (filepath_Join e path f)))
          (pkg_GoFiles pkg))"

text \<open>
  The body of the innermost loop, for one import path. A failed lookup is logged
  (once per path, which is all the map \<open>warned\<close> is for) and skipped; the log is
  not modelled.
\<close>

definition resolveImport ::
  "env \<Rightarrow> (string \<Rightarrow> bool) option \<Rightarrow> App \<Rightarrow> string \<Rightarrow> error + App" where
  "resolveImport e noBuild app path =
     (if isStandardPackage e path \<or> PackageIndex app path \<noteq> None then Inr app
      else
        (case gopathPackage e path of
           None \<Rightarrow> Inr app
         | Some pkg \<Rightarrow>
             (let files = gopathFiles e noBuild path pkg in
              if length files = 0 then Inl (AllFilesExcluded path)
              else
                (let p = \<lparr>ImportPath = path, Files = files, BaseDir = pkg_Dir pkg,
                          Dependencies = [], HasInit = False, Dupe = False\<rparr>;
                     a = brk app
                 in Inr (app\<lparr>mem := (mem app)(a := p), brk := a + 1,
                             Packages := Packages app @ [a],
                             PackageIndex := (PackageIndex app)(path \<mapsto> a)\<rparr>)))))"

text \<open>\<open>for _, path := range f.ImportPaths\<close> and \<open>for _, f := range p.Files\<close>.\<close>

fun resolveImportPaths ::
  "env \<Rightarrow> (string \<Rightarrow> bool) option \<Rightarrow> App \<Rightarrow> string list \<Rightarrow> error + App" where
  "resolveImportPaths e noBuild app [] = Inr app"
| "resolveImportPaths e noBuild app (path # paths) =
     (case resolveImport e noBuild app path of
        Inl err \<Rightarrow> Inl err
      | Inr app' \<Rightarrow> resolveImportPaths e noBuild app' paths)"

fun resolveFiles ::
  "env \<Rightarrow> (string \<Rightarrow> bool) option \<Rightarrow> App \<Rightarrow> File list \<Rightarrow> error + App" where
  "resolveFiles e noBuild app [] = Inr app"
| "resolveFiles e noBuild app (f # fs) =
     (case resolveImportPaths e noBuild app (ImportPaths f) of
        Inl err \<Rightarrow> Inl err
      | Inr app' \<Rightarrow> resolveFiles e noBuild app' fs)"

text \<open>
  The loop over \<open>app.Packages\<close>, which grows while it runs. Nothing bounds the
  packages the lookup may keep finding, so the loop need not end: \<open>None\<close> is a run
  that never returns.
\<close>

partial_function (option) addFromGOPATH_loop ::
  "env \<Rightarrow> (string \<Rightarrow> bool) option \<Rightarrow> nat \<Rightarrow> App \<Rightarrow> (error + App) option" where
  "addFromGOPATH_loop e noBuild i app =
     (if i < length (Packages app) then
        (case resolveFiles e noBuild app (Files (mem app (Packages app ! i))) of
           Inl err \<Rightarrow> Some (Inl err)
         | Inr app' \<Rightarrow> addFromGOPATH_loop e noBuild (i + 1) app')
      else Some (Inr app))"

definition addFromGOPATH :: "env \<Rightarrow> (string \<Rightarrow> bool) option \<Rightarrow> App \<Rightarrow> (error + App) option" where
  "addFromGOPATH e noBuild app = addFromGOPATH_loop e noBuild 0 app"

text \<open>
  \<open>// Populate dependency lists\<close>. The keys of the map \<open>imports\<close> are the import
  paths of the files of the package; the loop over the map takes them in the order
  of the runtime. \<open>sort.Sort\<close> is not stable, which cannot be seen here: the
  packages of distinct paths taken from the index have distinct import paths, as
  the index maps a path to a package of that path.
\<close>

definition dependenciesOf :: "env \<Rightarrow> App \<Rightarrow> ptr \<Rightarrow> ptr list" where
  "dependenciesOf e app p =
     sort_key (\<lambda>q. ImportPath (mem app q))
       (List.map_filter (PackageIndex app)
          (rangeOrder e (RangeImports p)
             (remdups (concat (map ImportPaths (Files (mem app p)))))))"

fun populateDependencies :: "env \<Rightarrow> App \<Rightarrow> ptr list \<Rightarrow> App" where
  "populateDependencies e app [] = app"
| "populateDependencies e app (p # ps) =
     populateDependencies e
       (app\<lparr>mem := (mem app)(p := (mem app p)\<lparr>Dependencies := dependenciesOf e app p\<rparr>)\<rparr>) ps"

text \<open>
  The part of \<open>ParseFiles\<close> from \<open>// Create Package objects\<close> on, given
  \<open>app.Files\<close> and the entries of \<open>pkgFiles\<close> in the order the runtime ranges
  over them.
\<close>

definition ParseFiles_packages ::
  "env \<Rightarrow> File list \<Rightarrow> (string \<times> File list) list \<Rightarrow> (error + App) option" where
  "ParseFiles_packages e files pkgFiles =
     (case createPackages e (newApp files) pkgFiles of
        Inl err \<Rightarrow> Some (Inl err)
      | Inr app \<Rightarrow>
          (case (if goPath e \<noteq> [] then
                   (if noBuildFiles e \<noteq> [] then
                      (case regexp_Compile e (noBuildFiles e) of
                         None \<Rightarrow> Some (Inl BadNoBuildFiles)
                       | Some re \<Rightarrow> addFromGOPATH e (Some re) app)
                    else addFromGOPATH e None app)
                 else Some (Inr app)) of
             None \<Rightarrow> None
           | Some (Inl err) \<Rightarrow> Some (Inl err)
           | Some (Inr app2) \<Rightarrow>
               (let app3 = populateDependencies e app2 (Packages app2) in
                case topologicalSort (mem app3) (Packages app3) of
                  Inl pn \<Rightarrow> Some (Inl (Panicked pn))
                | Inr (ps, Some msg) \<Rightarrow> Some (Inl (CyclicDependency msg))
                | Inr (ps, None) \<Rightarrow> Some (Inr (app3\<lparr>Packages := ps\<rparr>)))))"

text \<open>
  The first loop of \<open>ParseFiles\<close>: the set \<open>dirs\<close> of the directories of the
  file names, here the list of its keys.
\<close>

fun collectDirs :: "env \<Rightarrow> string list \<Rightarrow> string list \<Rightarrow> error + string list" where
  "collectDirs e dirs [] = Inr dirs"
| "collectDirs e dirs (f # fs) =
     (let dir = filepath_Dir e f in
      if dir = [] \<or> dir = ''/'' then Inl (BadFilename f)
      else collectDirs e (if dir \<in> set dirs then dirs else dirs @ [dir]) fs)"

text \<open>The loop over \<open>pkg.GoFiles\<close>: every file of the directory goes through
  \<open>parseFile\<close>.\<close>

fun parseGoFiles :: "env \<Rightarrow> string \<Rightarrow> string \<Rightarrow> string list \<Rightarrow> error + File list" where
  "parseGoFiles e baseDir dir [] = Inr []"
| "parseGoFiles e baseDir dir (f # fs) =
     (case parseFile e baseDir (filepath_Join e dir f) of
        Inl err \<Rightarrow> Inl err
      | Inr file \<Rightarrow>
          (case parseGoFiles e baseDir dir fs of
             Inl err \<Rightarrow> Inl err
           | Inr files \<Rightarrow> Inr (file # files)))"

text \<open>
  The loop over \<open>dirs\<close>, in the order of the runtime. It fills \<open>app.Files\<close> and
  the map \<open>pkgFiles\<close>, here the list of its entries; a directory is a key once it
  has a file.
\<close>

fun parseDirs ::
  "env \<Rightarrow> string \<Rightarrow> File list \<times> (string \<times> File list) list \<Rightarrow> string list
     \<Rightarrow> error + (File list \<times> (string \<times> File list) list)" where
  "parseDirs e baseDir (files, pkgFiles) [] = Inr (files, pkgFiles)"
| "parseDirs e baseDir (files, pkgFiles) (dir # dirs) =
     (case ctxt_ImportDir e (filepath_Join e baseDir dir) of
        NoGoError \<Rightarrow> parseDirs e baseDir (files, pkgFiles) dirs
      | ImportError err \<Rightarrow> Inl (FailedParsingDir dir)
      | Imported goFiles \<Rightarrow>
          (case parseGoFiles e baseDir dir goFiles of
             Inl err \<Rightarrow> Inl err
           | Inr fs \<Rightarrow>
               parseDirs e baseDir
                 (files @ fs, if fs = [] then pkgFiles else pkgFiles @ [(dir, fs)]) dirs))"

text \<open>
  \<open>ParseFiles\<close>. The loop \<open>// Create Package objects\<close> ranges over the map
  \<open>pkgFiles\<close>, so it takes the entries in the order of the runtime.
\<close>

definition ParseFiles :: "env \<Rightarrow> string \<Rightarrow> string list \<Rightarrow> (error + App) option" where
  "ParseFiles e baseDir filenames =
     (case collectDirs e [] filenames of
        Inl err \<Rightarrow> Some (Inl err)
      | Inr dirs \<Rightarrow>
          (case parseDirs e baseDir ([], []) (rangeOrder e RangeDirs dirs) of
             Inl err \<Rightarrow> Some (Inl err)
           | Inr (files, pkgFiles) \<Rightarrow>
               ParseFiles_packages e files
                 (map (\<lambda>dir. (dir, the (map_of pkgFiles dir)))
                    (rangeOrder e RangePkgFiles (map fst pkgFiles)))))"

section \<open>Properties of topologicalSort and findCycle\<close>

text \<open>What one sweep moves to the front, as a function of the list it sweeps.\<close>

fun picked :: "heap \<Rightarrow> ptr set \<Rightarrow> ptr list \<Rightarrow> ptr list" where
  "picked h selected [] = []"
| "picked h selected (pkg # ps) =
     (if set (Dependencies (h pkg)) \<subseteq> selected
      then pkg # picked h (insert pkg selected) ps
      else picked h selected ps)"

lemma swap_take_front:
  assumes "n \<le> i" "i < length p"
  shows "take (Suc n) (p[i := p ! n, n := x]) = take n p @ [x]"
proof -
  have "n < length (p[i := p ! n, n := x])" using assms by simp
  then have "take (Suc n) (p[i := p ! n, n := x])
      = take n (p[i := p ! n, n := x]) @ [(p[i := p ! n, n := x]) ! n]"
    by (rule take_Suc_conv_app_nth)
  also have "take n (p[i := p ! n, n := x]) = take n p" using assms by simp
  also have "(p[i := p ! n, n := x]) ! n = x" using assms by simp
  finally show ?thesis .
qed

lemma swap_drop_back:
  assumes "n \<le> i"
  shows "drop (Suc i) (p[i := y, n := x]) = drop (Suc i) p"
  using assms by simp

lemma swap_mset:
  assumes "n \<le> i" "i < length p"
  shows "mset (p[i := p ! n, n := p ! i]) = mset p"
  using assms by (simp add: mset_swap)

lemma sweep_picked:
  assumes "n \<le> i" "i \<le> length p"
  shows "\<exists>p'. sweep h i n p selected =
           (n + length (picked h selected (drop i p)), p',
            selected \<union> set (picked h selected (drop i p)))
         \<and> length p' = length p \<and> mset p' = mset p
         \<and> take (n + length (picked h selected (drop i p))) p'
             = take n p @ picked h selected (drop i p)"
  using assms
proof (induction h i n p selected rule: sweep.induct)
  case (1 h i n p selected)
  show ?case
  proof (cases "i < length p")
    case False
    with "1.prems" have "i = length p" by simp
    then show ?thesis by (simp add: sweep.simps)
  next
    case True
    note lt = this
    let ?pkg = "p ! i"
    have dr: "drop i p = ?pkg # drop (Suc i) p"
      using lt by (simp add: Cons_nth_drop_Suc)
    show ?thesis
    proof (cases "list_all (\<lambda>dep. dep \<in> selected) (Dependencies (h ?pkg))")
      case False
      then have ns: "\<not> set (Dependencies (h ?pkg)) \<subseteq> selected"
        by (auto simp: list_all_iff)
      have sw: "sweep h i n p selected = sweep h (i + 1) n p selected"
        using lt False by (subst sweep.simps) (simp add: Let_def)
      have pk: "picked h selected (drop i p) = picked h selected (drop (i + 1) p)"
        using ns dr by simp
      from "1.IH"(2) [OF lt refl False] "1.prems" lt
      show ?thesis unfolding sw pk by simp
    next
      case True
      then have ss: "set (Dependencies (h ?pkg)) \<subseteq> selected"
        by (auto simp: list_all_iff)
      let ?p2 = "p[i := p ! n, n := ?pkg]"
      let ?s2 = "insert ?pkg selected"
      have sw: "sweep h i n p selected = sweep h (i + 1) (n + 1) ?p2 ?s2"
        using lt True by (subst sweep.simps) (simp add: Let_def)
      have d2: "drop (i + 1) ?p2 = drop (i + 1) p"
        using "1.prems" by simp
      let ?c = "picked h ?s2 (drop (i + 1) p)"
      have pk: "picked h selected (drop i p) = ?pkg # ?c"
        using ss dr by simp
      from "1.IH"(1) [OF lt refl True] "1.prems" lt
      obtain p' where r: "sweep h (i + 1) (n + 1) ?p2 ?s2
            = (n + 1 + length ?c, p', ?s2 \<union> set ?c)"
          and len: "length p' = length ?p2" and ms: "mset p' = mset ?p2"
          and tk: "take (n + 1 + length ?c) p' = take (n + 1) ?p2 @ ?c"
        unfolding d2 by auto
      have "take (n + 1) ?p2 = take n p @ [?pkg]"
        using swap_take_front [of n i p ?pkg] "1.prems" lt by simp
      with tk have tk': "take (n + length (?pkg # ?c)) p' = take n p @ ?pkg # ?c"
        by simp
      have "mset ?p2 = mset p"
        using swap_mset [of n i p] "1.prems" lt by simp
      with ms len r tk' show ?thesis
        unfolding sw pk by simp
    qed
  qed
qed

lemma picked_subset: "set (picked h selected ps) \<subseteq> set ps"
  by (induction ps arbitrary: selected) auto

lemma picked_deps:
  "k < length (picked h selected ps) \<Longrightarrow>
   set (Dependencies (h (picked h selected ps ! k)))
     \<subseteq> selected \<union> set (take k (picked h selected ps))"
proof (induction ps arbitrary: selected k)
  case Nil
  then show ?case by simp
next
  case (Cons pkg ps)
  show ?case
  proof (cases "set (Dependencies (h pkg)) \<subseteq> selected")
    case False
    with Cons show ?thesis by simp
  next
    case True
    show ?thesis
    proof (cases k)
      case 0
      with True show ?thesis by simp
    next
      case (Suc k')
      with Cons.prems True have "k' < length (picked h (insert pkg selected) ps)"
        by simp
      from Cons.IH [OF this] Suc True show ?thesis by auto
    qed
  qed
qed

lemma picked_Nil:
  "picked h selected ps = [] \<longleftrightarrow> (\<forall>pkg\<in>set ps. \<not> set (Dependencies (h pkg)) \<subseteq> selected)"
  by (induction ps) auto

lemma picked_all:
  "(\<And>j. j < length ps \<Longrightarrow> set (Dependencies (h (ps ! j))) \<subseteq> selected \<union> set (take j ps))
   \<Longrightarrow> picked h selected ps = ps"
proof (induction ps arbitrary: selected)
  case Nil
  then show ?case by simp
next
  case (Cons pkg ps)
  from Cons.prems [of 0] have hd: "set (Dependencies (h pkg)) \<subseteq> selected"
    by simp
  have "picked h (insert pkg selected) ps = ps"
  proof (rule Cons.IH)
    fix j assume "j < length ps"
    with Cons.prems [of "Suc j"]
    show "set (Dependencies (h (ps ! j))) \<subseteq> insert pkg selected \<union> set (take j ps)"
      by auto
  qed
  with hd show ?case by simp
qed

text \<open>One round of the outer loop, in terms of what the sweep picks.\<close>

lemma topologicalSort_loop_round:
  assumes "p \<noteq> []"
  shows "\<exists>p'. length p' = length p \<and> mset p' = mset p
           \<and> take (length (picked h selected p)) p' = picked h selected p
           \<and> topologicalSort_loop h front p selected =
               (if picked h selected p = [] then
                  (case findCycle h p' of
                     Inl pn \<Rightarrow> Inl pn
                   | Inr cycle \<Rightarrow>
                       (case cyclePaths h cycle of
                          Inl pn \<Rightarrow> Inl pn
                        | Inr paths \<Rightarrow> Inr (front @ p', Some (cycleError paths))))
                else topologicalSort_loop h (front @ picked h selected p)
                       (drop (length (picked h selected p)) p')
                       (selected \<union> set (picked h selected p)))"
proof -
  from sweep_picked [of 0 0 p h selected]
  obtain p' where sw: "sweep h 0 0 p selected =
        (length (picked h selected p), p', selected \<union> set (picked h selected p))"
      and len: "length p' = length p" and ms: "mset p' = mset p"
      and tk: "take (length (picked h selected p)) p' = picked h selected p"
    by auto
  have "topologicalSort_loop h front p selected =
      (if picked h selected p = [] then
         (case findCycle h p' of
            Inl pn \<Rightarrow> Inl pn
          | Inr cycle \<Rightarrow>
              (case cyclePaths h cycle of
                 Inl pn \<Rightarrow> Inl pn
               | Inr paths \<Rightarrow> Inr (front @ p', Some (cycleError paths))))
       else topologicalSort_loop h (front @ picked h selected p)
              (drop (length (picked h selected p)) p')
              (selected \<union> set (picked h selected p)))"
    using assms by (subst topologicalSort_loop.simps) (simp add: sw tk)
  with len ms tk show ?thesis by blast
qed

lemma topologicalSort_loop_Nil: "topologicalSort_loop h front [] selected = Inr (front, None)"
  by (subst topologicalSort_loop.simps) simp

definition depsFirst :: "heap \<Rightarrow> ptr list \<Rightarrow> bool" where
  "depsFirst h q \<longleftrightarrow> (\<forall>j<length q. set (Dependencies (h (q ! j))) \<subseteq> set (take j q))"

lemma depsFirst_index:
  "depsFirst h q \<longleftrightarrow>
     (\<forall>j<length q. \<forall>D\<in>set (Dependencies (h (q ! j))). \<exists>i<j. q ! i = D)"
proof -
  have "D \<in> set (take j q) \<longleftrightarrow> (\<exists>i<j. q ! i = D)" if "j < length q" for j D
    using that by (auto simp: in_set_conv_nth)
  then show ?thesis
    unfolding depsFirst_def by (meson subsetD subsetI)
qed

lemma depsFirst_append_picked:
  assumes "depsFirst h front"
  shows "depsFirst h (front @ picked h (set front) p)"
  unfolding depsFirst_def
proof (intro allI impI)
  fix j
  let ?c = "picked h (set front) p"
  assume j: "j < length (front @ ?c)"
  show "set (Dependencies (h ((front @ ?c) ! j))) \<subseteq> set (take j (front @ ?c))"
  proof (cases "j < length front")
    case True
    with assms show ?thesis
      by (simp add: depsFirst_def nth_append)
  next
    case False
    with j have k: "j - length front < length ?c" by simp
    from picked_deps [OF k] False show ?thesis
      by (simp add: nth_append)
  qed
qed

lemma topologicalSort_loop_mset:
  "topologicalSort_loop h front p selected = Inr (q, e) \<Longrightarrow> mset q = mset front + mset p"
proof (induction "length p" arbitrary: front p selected rule: less_induct)
  case less
  show ?case
  proof (cases "p = []")
    case True
    with less.prems show ?thesis by (simp add: topologicalSort_loop_Nil)
  next
    case False
    from topologicalSort_loop_round [OF False, of h selected front]
    obtain p' where len: "length p' = length p" and ms: "mset p' = mset p"
      and tk: "take (length (picked h selected p)) p' = picked h selected p"
      and eq: "topologicalSort_loop h front p selected =
               (if picked h selected p = [] then
                  (case findCycle h p' of
                     Inl pn \<Rightarrow> Inl pn
                   | Inr cycle \<Rightarrow>
                       (case cyclePaths h cycle of
                          Inl pn \<Rightarrow> Inl pn
                        | Inr paths \<Rightarrow> Inr (front @ p', Some (cycleError paths))))
                else topologicalSort_loop h (front @ picked h selected p)
                       (drop (length (picked h selected p)) p')
                       (selected \<union> set (picked h selected p)))"
      by blast
    let ?c = "picked h selected p"
    show ?thesis
    proof (cases "?c = []")
      case True
      with eq less.prems have "q = front @ p'"
        by (auto split: sum.splits)
      with ms show ?thesis by simp
    next
      case nonempty: False
      then have "length (drop (length ?c) p') < length p"
        using len False by simp
      moreover have "topologicalSort_loop h (front @ ?c) (drop (length ?c) p')
          (selected \<union> set ?c) = Inr (q, e)"
        using eq nonempty less.prems by simp
      ultimately have "mset q = mset (front @ ?c) + mset (drop (length ?c) p')"
        by (rule less.hyps)
      also have "\<dots> = mset front + mset (take (length ?c) p' @ drop (length ?c) p')"
        using tk by simp
      finally show ?thesis using ms by simp
    qed
  qed
qed

lemma topologicalSort_loop_depsFirst:
  "topologicalSort_loop h front p (set front) = Inr (q, None) \<Longrightarrow> depsFirst h front
   \<Longrightarrow> depsFirst h q"
proof (induction "length p" arbitrary: front p rule: less_induct)
  case less
  show ?case
  proof (cases "p = []")
    case True
    with less.prems show ?thesis by (simp add: topologicalSort_loop_Nil)
  next
    case False
    from topologicalSort_loop_round [OF False, of h "set front" front]
    obtain p' where len: "length p' = length p"
      and eq: "topologicalSort_loop h front p (set front) =
               (if picked h (set front) p = [] then
                  (case findCycle h p' of
                     Inl pn \<Rightarrow> Inl pn
                   | Inr cycle \<Rightarrow>
                       (case cyclePaths h cycle of
                          Inl pn \<Rightarrow> Inl pn
                        | Inr paths \<Rightarrow> Inr (front @ p', Some (cycleError paths))))
                else topologicalSort_loop h (front @ picked h (set front) p)
                       (drop (length (picked h (set front) p)) p')
                       (set front \<union> set (picked h (set front) p)))"
      by blast
    let ?c = "picked h (set front) p"
    show ?thesis
    proof (cases "?c = []")
      case True
      with eq less.prems show ?thesis
        by (auto split: sum.splits)
    next
      case nonempty: False
      then have "length (drop (length ?c) p') < length p"
        using len False by simp
      moreover have "topologicalSort_loop h (front @ ?c) (drop (length ?c) p')
          (set (front @ ?c)) = Inr (q, None)"
        using eq nonempty less.prems by simp
      moreover have "depsFirst h (front @ ?c)"
        using less.prems(2) by (rule depsFirst_append_picked)
      ultimately show ?thesis
        by (rule less.hyps)
    qed
  qed
qed

lemma topologicalSort_loop_sorted:
  assumes "depsFirst h (front @ p)"
  shows "topologicalSort_loop h front p (set front) = Inr (front @ p, None)"
proof (cases "p = []")
  case True
  then show ?thesis by (simp add: topologicalSort_loop_Nil)
next
  case False
  have all: "picked h (set front) p = p"
  proof (rule picked_all)
    fix j assume "j < length p"
    then have "length front + j < length (front @ p)" by simp
    with assms have "set (Dependencies (h ((front @ p) ! (length front + j))))
        \<subseteq> set (take (length front + j) (front @ p))"
      unfolding depsFirst_def by blast
    then show "set (Dependencies (h (p ! j))) \<subseteq> set front \<union> set (take j p)"
      by simp
  qed
  from topologicalSort_loop_round [OF False, of h "set front" front] all False
  obtain p' where "length p' = length p"
    and "topologicalSort_loop h front p (set front) =
         topologicalSort_loop h (front @ p) (drop (length p) p') (set front \<union> set p)"
    by auto
  then show ?thesis
    by (simp add: topologicalSort_loop_Nil)
qed

lemma topologicalSort_loop_succeeds:
  assumes "\<forall>P\<in>set front \<union> set p. set (Dependencies (h P)) \<subseteq> set front \<union> set p"
    and "acyclic {(P, D). P \<in> set front \<union> set p \<and> D \<in> set (Dependencies (h P))}"
  shows "\<exists>q. topologicalSort_loop h front p (set front) = Inr (q, None)"
  using assms
proof (induction "length p" arbitrary: front p rule: less_induct)
  case less
  show ?case
  proof (cases "p = []")
    case True
    then show ?thesis by (simp add: topologicalSort_loop_Nil)
  next
    case False
    let ?all = "set front \<union> set p"
    let ?R = "{(P, D). P \<in> ?all \<and> D \<in> set (Dependencies (h P))}"
    have "?R \<subseteq> ?all \<times> ?all"
      using less.prems(1) by auto
    then have "finite ?R"
      by (rule finite_subset) simp
    then have "wf (?R\<inverse>)"
      using less.prems(2) by (rule finite_acyclic_wf_converse)
    moreover from False have "hd p \<in> set p" by simp
    ultimately obtain z where z: "z \<in> set p" and zmin: "\<And>y. (y, z) \<in> ?R\<inverse> \<Longrightarrow> y \<notin> set p"
      by (rule wfE_min) blast
    have "set (Dependencies (h z)) \<subseteq> set front"
    proof
      fix D assume D: "D \<in> set (Dependencies (h z))"
      with z have "(D, z) \<in> ?R\<inverse>" by simp
      then have "D \<notin> set p" by (rule zmin)
      moreover from D z less.prems(1) have "D \<in> ?all" by blast
      ultimately show "D \<in> set front" by simp
    qed
    with z have nonempty: "picked h (set front) p \<noteq> []"
      by (auto simp: picked_Nil)
    let ?c = "picked h (set front) p"
    from topologicalSort_loop_round [OF False, of h "set front" front] nonempty
    obtain p' where len: "length p' = length p" and ms: "mset p' = mset p"
      and tk: "take (length ?c) p' = ?c"
      and eq: "topologicalSort_loop h front p (set front) =
               topologicalSort_loop h (front @ ?c) (drop (length ?c) p') (set (front @ ?c))"
      by auto
    have "set p' = set p"
      using ms by (rule mset_eq_setD)
    moreover have "set p' = set (take (length ?c) p') \<union> set (drop (length ?c) p')"
      by (metis append_take_drop_id set_append)
    ultimately have all: "set (front @ ?c) \<union> set (drop (length ?c) p') = ?all"
      using tk by auto
    have "length (drop (length ?c) p') < length p"
      using len False nonempty by simp
    moreover have "\<forall>P\<in>set (front @ ?c) \<union> set (drop (length ?c) p').
        set (Dependencies (h P)) \<subseteq> set (front @ ?c) \<union> set (drop (length ?c) p')"
      unfolding all using less.prems(1) .
    moreover have "acyclic {(P, D). P \<in> set (front @ ?c) \<union> set (drop (length ?c) p')
        \<and> D \<in> set (Dependencies (h P))}"
      unfolding all using less.prems(2) .
    ultimately have "\<exists>q. topologicalSort_loop h (front @ ?c) (drop (length ?c) p')
        (set (front @ ?c)) = Inr (q, None)"
      by (rule less.hyps)
    with eq show ?thesis by simp
  qed
qed

lemma depsFirst_Nil: "depsFirst h []"
  by (simp add: depsFirst_def)

definition mkPackage :: "string \<Rightarrow> ptr list \<Rightarrow> Package" where
  "mkPackage path deps =
     \<lparr>ImportPath = path, Files = [], BaseDir = [], Dependencies = deps,
      HasInit = False, Dupe = False\<rparr>"

definition heap_xyz :: heap where
  "heap_xyz = (\<lambda>_. mkPackage ''x'' [])(1 := mkPackage ''y'' [0], 2 := mkPackage ''z'' [1])"

text \<open>
  C1. For every acyclic dependency graph (a list of packages whose dependencies are
  packages of the list, with no cycle among the dependency edges), topologicalSort
  succeeds: it returns a nil error and leaves the list in an order, a rearrangement of
  the input, where every dependency D of every package P occurs strictly before P.
\<close>

theorem topologicalSort_acyclic:
  assumes "\<forall>P\<in>set p. set (Dependencies (h P)) \<subseteq> set p"
    and "acyclic {(P, D). P \<in> set p \<and> D \<in> set (Dependencies (h P))}"
  shows "\<exists>q. topologicalSort h p = Inr (q, None) \<and> mset q = mset p
           \<and> (\<forall>j<length q. \<forall>D\<in>set (Dependencies (h (q ! j))). \<exists>i<j. q ! i = D)"
proof -
  from topologicalSort_loop_succeeds [of "[]" p h] assms
  obtain q where q: "topologicalSort_loop h [] p (set []) = Inr (q, None)"
    by auto
  from topologicalSort_loop_depsFirst [OF q depsFirst_Nil] have "depsFirst h q" .
  moreover from q have "mset q = mset p"
    by (auto dest: topologicalSort_loop_mset)
  ultimately show ?thesis
    using q by (auto simp: topologicalSort_def depsFirst_index)
qed

theorem topologicalSort_acyclic_witness:
  "list_all (\<lambda>P. set (Dependencies (heap_xyz P)) \<subseteq> set [2, 1, 0]) [2, 1, 0]
   \<and> acyclic {(P, D). P \<in> set [2, 1, 0] \<and> D \<in> set (Dependencies (heap_xyz P))}
   \<and> (\<exists>q. topologicalSort heap_xyz [2, 1, 0] = Inr (q, None) \<and> mset q = mset [2, 1, 0]
          \<and> (\<forall>j<length q. \<forall>D\<in>set (Dependencies (heap_xyz (q ! j))). \<exists>i<j. q ! i = D))
   \<and> topologicalSort heap_xyz [2, 1, 0] = Inr ([0, 1, 2], None)"
proof -
  have closed: "\<forall>P\<in>set [2, 1, 0]. set (Dependencies (heap_xyz P)) \<subseteq> set [2, 1, 0]"
    by (simp add: heap_xyz_def mkPackage_def)
  have "{(P, D). P \<in> set [2, 1, 0] \<and> D \<in> set (Dependencies (heap_xyz P))} \<subseteq> less_than\<inverse>"
    by (auto simp: heap_xyz_def mkPackage_def)
  moreover have "acyclic (less_than\<inverse>)"
    by (simp add: wf_acyclic)
  ultimately have acyc:
    "acyclic {(P, D). P \<in> set [2, 1, 0] \<and> D \<in> set (Dependencies (heap_xyz P))}"
    by (rule acyclic_subset [rotated])
  have run: "topologicalSort heap_xyz [2, 1, 0] = Inr ([0, 1, 2], None)"
    by (simp add: topologicalSort_def topologicalSort_loop.simps sweep.simps
        heap_xyz_def mkPackage_def)
  from closed have "list_all (\<lambda>P. set (Dependencies (heap_xyz P)) \<subseteq> set [2, 1, 0]) [2, 1, 0]"
    by (simp add: list_all_iff)
  with topologicalSort_acyclic [OF closed acyc] acyc run show ?thesis
    by blast
qed

text \<open>
  C7. topologicalSort is idempotent on correctly ordered input: when every dependency
  of every package of the list already occurs strictly before it, the call returns a
  nil error and the list is left exactly as it was. In general, whatever the call
  returns, the list it leaves is a permutation of its input.
\<close>

theorem topologicalSort_idempotent:
  "((\<forall>j<length p. \<forall>D\<in>set (Dependencies (h (p ! j))). \<exists>i<j. p ! i = D)
      \<longrightarrow> topologicalSort h p = Inr (p, None))
   \<and> (\<forall>q e. topologicalSort h p = Inr (q, e) \<longrightarrow> mset q = mset p)"
proof (intro conjI impI allI)
  assume "\<forall>j<length p. \<forall>D\<in>set (Dependencies (h (p ! j))). \<exists>i<j. p ! i = D"
  then have "depsFirst h ([] @ p)"
    by (simp add: depsFirst_index)
  from topologicalSort_loop_sorted [OF this] show "topologicalSort h p = Inr (p, None)"
    by (simp add: topologicalSort_def)
next
  fix q e assume "topologicalSort h p = Inr (q, e)"
  then show "mset q = mset p"
    by (auto simp: topologicalSort_def dest: topologicalSort_loop_mset)
qed

theorem topologicalSort_idempotent_witness:
  "topologicalSort heap_xyz [0, 1, 2] = Inr ([0, 1, 2], None)
   \<and> topologicalSort heap_xyz [2, 1, 0] = Inr ([0, 1, 2], None)
   \<and> mset [0, 1, 2 :: ptr] = mset [2, 1, 0]"
proof -
  have ord: "\<forall>j<length [0, 1, 2].
      \<forall>D\<in>set (Dependencies (heap_xyz ([0, 1, 2] ! j))). \<exists>i<j. [0, 1, 2] ! i = D"
    by (auto simp: heap_xyz_def mkPackage_def less_Suc_eq numeral_3_eq_3)
  have run: "topologicalSort heap_xyz [2, 1, 0] = Inr ([0, 1, 2], None)"
    by (simp add: topologicalSort_def topologicalSort_loop.simps sweep.simps
        heap_xyz_def mkPackage_def)
  from topologicalSort_idempotent [of "[0, 1, 2]" heap_xyz] ord
  have "topologicalSort heap_xyz [0, 1, 2] = Inr ([0, 1, 2], None)"
    by blast
  moreover from topologicalSort_idempotent [of "[2, 1, 0]" heap_xyz] run
  have "mset [0, 1, 2 :: ptr] = mset [2, 1, 0]"
    by blast
  ultimately show ?thesis using run by blast
qed

definition isWalk :: "heap \<Rightarrow> ptr list \<Rightarrow> ptr list \<Rightarrow> bool" where
  "isWalk h pkgs w \<longleftrightarrow>
     w \<noteq> [] \<and> distinct w \<and> set w \<subseteq> set pkgs
     \<and> (\<forall>k. Suc k < length w \<longrightarrow> w ! Suc k \<in> set (Dependencies (h (w ! k))))"

definition seenOf :: "ptr list \<Rightarrow> (ptr \<rightharpoonup> nat) \<Rightarrow> bool" where
  "seenOf w seen \<longleftrightarrow> (\<forall>d i. seen d = Some i \<longleftrightarrow> i < length w \<and> w ! i = d)"

lemma firstSeen_Some:
  "firstSeen seen deps = Some i \<Longrightarrow> \<exists>d\<in>set deps. seen d = Some i"
  by (induction deps) (auto split: option.splits)

lemma firstInMap_None: "firstInMap pkgs deps = None \<Longrightarrow> d \<in> set deps \<Longrightarrow> d \<notin> set pkgs"
  by (induction deps) (auto split: if_splits)

lemma isWalk_snoc:
  assumes w: "isWalk h pkgs w" and d: "d \<in> set (Dependencies (h (last w)))"
    and "d \<in> set pkgs" and "d \<notin> set w"
  shows "isWalk h pkgs (w @ [d])"
proof -
  from w have ne: "w \<noteq> []" by (simp add: isWalk_def)
  have "(w @ [d]) ! Suc k \<in> set (Dependencies (h ((w @ [d]) ! k)))"
    if "Suc k < length (w @ [d])" for k
  proof (cases "Suc k < length w")
    case True
    with w show ?thesis by (simp add: isWalk_def nth_append)
  next
    case False
    with that have k: "Suc k = length w" by simp
    then have "k = length w - 1" by simp
    then have "w ! k = last w" using ne by (simp add: last_conv_nth)
    with k d show ?thesis by (simp add: nth_append)
  qed
  with assms show ?thesis
    unfolding isWalk_def by auto
qed

lemma seenOf_snoc:
  assumes "seenOf w seen" and "d \<notin> set w"
  shows "seenOf (w @ [d]) (seen(d \<mapsto> length w))"
  unfolding seenOf_def
proof (intro allI)
  fix e i
  show "(seen(d \<mapsto> length w)) e = Some i \<longleftrightarrow> i < length (w @ [d]) \<and> (w @ [d]) ! i = e"
  proof (cases "e = d")
    case True
    have "i = length w" if "i < length w + 1" "(w @ [d]) ! i = d"
    proof (rule ccontr)
      assume "i \<noteq> length w"
      with that have "i < length w" "w ! i = d" by (simp_all add: nth_append)
      with assms(2) show False by (auto simp: in_set_conv_nth)
    qed
    with True show ?thesis by auto
  next
    case False
    with assms(1) show ?thesis
      by (auto simp: seenOf_def nth_append less_Suc_eq)
  qed
qed

lemma findCycle_loop_result:
  assumes "isWalk h pkgs cycle" and "seenOf cycle seen"
  shows "(findCycle_loop h pkgs cycle seen = Inl NilPointerDereference
           \<and> (\<exists>P\<in>set pkgs. \<forall>D\<in>set (Dependencies (h P)). D \<notin> set pkgs))
         \<or> (\<exists>w i. findCycle_loop h pkgs cycle seen = Inr (drop i w) \<and> i < length w
               \<and> isWalk h pkgs w \<and> take (length cycle) w = cycle
               \<and> w ! i \<in> set (Dependencies (h (last w))))"
  using assms
proof (induction h pkgs cycle seen rule: findCycle_loop.induct)
  case (1 h pkgs cycle seen)
  from "1.prems"(1) have ne: "cycle \<noteq> []" and sub: "set cycle \<subseteq> set pkgs"
    by (simp_all add: isWalk_def)
  let ?deps = "Dependencies (h (last cycle))"
  show ?case
  proof (cases "firstSeen seen ?deps")
    case (Some i)
    then obtain d where d: "d \<in> set ?deps" "seen d = Some i"
      by (auto dest: firstSeen_Some)
    with "1.prems"(2) have i: "i < length cycle" "cycle ! i = d"
      by (simp_all add: seenOf_def)
    have "findCycle_loop h pkgs cycle seen = Inr (drop i cycle)"
      using ne Some i by (subst findCycle_loop.simps) simp
    moreover have "take (length cycle) cycle = cycle" by simp
    moreover have "cycle ! i \<in> set (Dependencies (h (last cycle)))"
      using i d by simp
    ultimately show ?thesis
      using i(1) "1.prems"(1) by blast
  next
    case None
    note ns = this
    show ?thesis
    proof (cases "firstInMap pkgs ?deps")
      case None
      have "findCycle_loop h pkgs cycle seen = Inl NilPointerDereference"
        using ne ns None by (subst findCycle_loop.simps) simp
      moreover have "last cycle \<in> set pkgs"
        using ne sub by auto
      moreover have "\<forall>D\<in>set ?deps. D \<notin> set pkgs"
        using None by (auto dest: firstInMap_None)
      ultimately show ?thesis by blast
    next
      case (Some dep)
      then have dep: "dep \<in> set ?deps" "dep \<in> set pkgs"
        by (auto dest: firstInMap_Some)
      have fresh: "dep \<notin> set cycle"
      proof
        assume "dep \<in> set cycle"
        then obtain i where "i < length cycle" "cycle ! i = dep"
          by (auto simp: in_set_conv_nth)
        with "1.prems"(2) have "seen dep = Some i"
          unfolding seenOf_def by blast
        with firstSeen_None [OF ns dep(1)] show False by simp
      qed
      have eq: "findCycle_loop h pkgs cycle seen =
          findCycle_loop h pkgs (cycle @ [dep]) (seen(dep \<mapsto> length cycle))"
        using ne ns Some by (subst findCycle_loop.simps) simp
      have w': "isWalk h pkgs (cycle @ [dep])"
        using "1.prems"(1) dep fresh by (rule isWalk_snoc)
      have s': "seenOf (cycle @ [dep]) (seen(dep \<mapsto> length cycle))"
        using "1.prems"(2) fresh by (rule seenOf_snoc)
      from "1.IH" [OF ne ns Some w' s']
      show ?thesis
      proof
        assume "findCycle_loop h pkgs (cycle @ [dep]) (seen(dep \<mapsto> length cycle))
              = Inl NilPointerDereference
            \<and> (\<exists>P\<in>set pkgs. \<forall>D\<in>set (Dependencies (h P)). D \<notin> set pkgs)"
        with eq show ?thesis by simp
      next
        assume "\<exists>w i. findCycle_loop h pkgs (cycle @ [dep]) (seen(dep \<mapsto> length cycle))
              = Inr (drop i w) \<and> i < length w \<and> isWalk h pkgs w
              \<and> take (length (cycle @ [dep])) w = cycle @ [dep]
              \<and> w ! i \<in> set (Dependencies (h (last w)))"
        then obtain w i where r: "findCycle_loop h pkgs (cycle @ [dep])
              (seen(dep \<mapsto> length cycle)) = Inr (drop i w)" "i < length w" "isWalk h pkgs w"
            "w ! i \<in> set (Dependencies (h (last w)))"
          and tk: "take (length (cycle @ [dep])) w = cycle @ [dep]"
          by blast
        from tk have "take (length cycle) (take (length (cycle @ [dep])) w) = cycle"
          by simp
        then have "take (length cycle) w = cycle"
          by (simp add: min_def)
        with r eq show ?thesis by auto
      qed
    qed
  qed
qed

lemma findMin_Some_acc:
  "findMin h (Some a) pkgs = Some m \<Longrightarrow>
     m \<in> insert a (set pkgs) \<and> ImportPath (h m) \<le> ImportPath (h a)
     \<and> (\<forall>P\<in>set pkgs. ImportPath (h m) \<le> ImportPath (h P))"
proof (induction pkgs arbitrary: a)
  case Nil
  then show ?case by simp
next
  case (Cons pkg pkgs)
  show ?case
  proof (cases "ImportPath (h pkg) < ImportPath (h a)")
    case True
    with Cons.prems have "findMin h (Some pkg) pkgs = Some m" by simp
    from Cons.IH [OF this] True show ?thesis by auto
  next
    case False
    with Cons.prems have "findMin h (Some a) pkgs = Some m" by simp
    from Cons.IH [OF this] False show ?thesis by auto
  qed
qed

lemma findMin_None: "findMin h None pkgs = None \<longleftrightarrow> pkgs = []"
proof (cases pkgs)
  case Nil
  then show ?thesis by simp
next
  case (Cons pkg ps)
  have "findMin h (Some a) qs \<noteq> None" for a qs
    by (induction qs arbitrary: a) simp_all
  with Cons show ?thesis by simp
qed

lemma findMin_Some:
  assumes "findMin h None pkgs = Some m"
  shows "m \<in> set pkgs \<and> (\<forall>P\<in>set pkgs. ImportPath (h m) \<le> ImportPath (h P))"
proof (cases pkgs)
  case Nil
  with assms show ?thesis by simp
next
  case (Cons pkg ps)
  with assms have "findMin h (Some pkg) ps = Some m" by simp
  from findMin_Some_acc [OF this] Cons show ?thesis by auto
qed

lemma findCycle_result:
  assumes "pkgs \<noteq> []"
  shows "\<exists>m. findMin h None pkgs = Some m \<and> m \<in> set pkgs
           \<and> (\<forall>P\<in>set pkgs. ImportPath (h m) \<le> ImportPath (h P))
           \<and> ((findCycle h pkgs = Inl NilPointerDereference
                 \<and> (\<exists>P\<in>set pkgs. \<forall>D\<in>set (Dependencies (h P)). D \<notin> set pkgs))
               \<or> (\<exists>w i. findCycle h pkgs = Inr (drop i w) \<and> i < length w
                     \<and> isWalk h pkgs w \<and> hd w = m
                     \<and> w ! i \<in> set (Dependencies (h (last w)))))"
proof -
  from assms obtain m where m: "findMin h None pkgs = Some m"
    using findMin_None [of h pkgs] by auto
  from findMin_Some [OF m] have mp: "m \<in> set pkgs"
    "\<forall>P\<in>set pkgs. ImportPath (h m) \<le> ImportPath (h P)" by simp_all
  have w0: "isWalk h pkgs [m]" using mp(1) by (simp add: isWalk_def)
  have s0: "seenOf [m] [m \<mapsto> 0]" by (auto simp: seenOf_def)
  have fc: "findCycle h pkgs = findCycle_loop h pkgs [m] [m \<mapsto> 0]"
    by (simp add: findCycle_def m)
  from findCycle_loop_result [OF w0 s0]
  have "(findCycle h pkgs = Inl NilPointerDereference
          \<and> (\<exists>P\<in>set pkgs. \<forall>D\<in>set (Dependencies (h P)). D \<notin> set pkgs))
        \<or> (\<exists>w i. findCycle h pkgs = Inr (drop i w) \<and> i < length w
              \<and> isWalk h pkgs w \<and> hd w = m
              \<and> w ! i \<in> set (Dependencies (h (last w))))"
  proof
    assume "findCycle_loop h pkgs [m] [m \<mapsto> 0] = Inl NilPointerDereference
        \<and> (\<exists>P\<in>set pkgs. \<forall>D\<in>set (Dependencies (h P)). D \<notin> set pkgs)"
    with fc show ?thesis by simp
  next
    assume "\<exists>w i. findCycle_loop h pkgs [m] [m \<mapsto> 0] = Inr (drop i w) \<and> i < length w
        \<and> isWalk h pkgs w \<and> take (length [m]) w = [m]
        \<and> w ! i \<in> set (Dependencies (h (last w)))"
    then obtain w i where r: "findCycle_loop h pkgs [m] [m \<mapsto> 0] = Inr (drop i w)"
        "i < length w" "isWalk h pkgs w" "w ! i \<in> set (Dependencies (h (last w)))"
      and tk: "take (length [m]) w = [m]"
      by blast
    from tk have "hd w = m" by (cases w) simp_all
    with r fc show ?thesis by auto
  qed
  with m mp show ?thesis by blast
qed

lemma cyclePaths_drop:
  "i < length w \<Longrightarrow>
   cyclePaths h (drop i w) = Inr (map (\<lambda>P. ImportPath (h P)) (drop i w) @ [ImportPath (h (w ! i))])"
  by (cases "drop i w") (auto simp: cyclePaths_def hd_drop_conv_nth [symmetric])

lemma topologicalSort_loop_no_panic:
  assumes "\<forall>P\<in>set front \<union> set p. set (Dependencies (h P)) \<subseteq> set front \<union> set p"
  shows "\<exists>q e. topologicalSort_loop h front p (set front) = Inr (q, e)"
  using assms
proof (induction "length p" arbitrary: front p rule: less_induct)
  case less
  show ?case
  proof (cases "p = []")
    case True
    then show ?thesis by (simp add: topologicalSort_loop_Nil)
  next
    case False
    let ?c = "picked h (set front) p"
    from topologicalSort_loop_round [OF False, of h "set front" front]
    obtain p' where len: "length p' = length p" and ms: "mset p' = mset p"
      and tk: "take (length ?c) p' = ?c"
      and eq: "topologicalSort_loop h front p (set front) =
               (if ?c = [] then
                  (case findCycle h p' of
                     Inl pn \<Rightarrow> Inl pn
                   | Inr cycle \<Rightarrow>
                       (case cyclePaths h cycle of
                          Inl pn \<Rightarrow> Inl pn
                        | Inr paths \<Rightarrow> Inr (front @ p', Some (cycleError paths))))
                else topologicalSort_loop h (front @ ?c) (drop (length ?c) p')
                       (set front \<union> set ?c))"
      by blast
    have sp: "set p' = set p" using ms by (rule mset_eq_setD)
    show ?thesis
    proof (cases "?c = []")
      case True
      have pre: "\<forall>P\<in>set p'. \<exists>D\<in>set (Dependencies (h P)). D \<in> set p'"
      proof
        fix P assume P: "P \<in> set p'"
        with True sp have "\<not> set (Dependencies (h P)) \<subseteq> set front"
          by (simp add: picked_Nil)
        then obtain D where "D \<in> set (Dependencies (h P))" "D \<notin> set front" by blast
        moreover with P sp less.prems have "D \<in> set front \<union> set p" by blast
        ultimately show "\<exists>D\<in>set (Dependencies (h P)). D \<in> set p'"
          using sp by blast
      qed
      have "p' \<noteq> []" using len False by auto
      from findCycle_result [OF this, of h] pre
      obtain w i where "findCycle h p' = Inr (drop i w)" "i < length w"
        by blast
      with eq True show ?thesis
        by (simp add: cyclePaths_drop)
    next
      case nonempty: False
      have "set p' = set (take (length ?c) p') \<union> set (drop (length ?c) p')"
        by (metis append_take_drop_id set_append)
      with sp tk have all: "set (front @ ?c) \<union> set (drop (length ?c) p') = set front \<union> set p"
        by auto
      have "length (drop (length ?c) p') < length p"
        using len False nonempty by simp
      moreover have "\<forall>P\<in>set (front @ ?c) \<union> set (drop (length ?c) p').
          set (Dependencies (h P)) \<subseteq> set (front @ ?c) \<union> set (drop (length ?c) p')"
        unfolding all using less.prems .
      ultimately have "\<exists>q e. topologicalSort_loop h (front @ ?c) (drop (length ?c) p')
          (set (front @ ?c)) = Inr (q, e)"
        by (rule less.hyps)
      with eq nonempty show ?thesis by simp
    qed
  qed
qed

text \<open>
  C10. Under the precondition that the argument list is not empty and every package
  in it has at least one dependency that is itself in the list, findCycle terminates
  without a panic: it never reads through a nil package, the inner search for a
  dependency in the remaining set always finds one, and the walk (distinct packages of
  the list) returns its part from the package it revisits. The precondition holds
  wherever topologicalSort calls findCycle on a list that contains the dependencies of
  its packages, so on such a list topologicalSort returns without a panic.
\<close>

theorem findCycle_no_nil_dereference:
  "(pkgs \<noteq> [] \<and> (\<forall>P\<in>set pkgs. \<exists>D\<in>set (Dependencies (h P)). D \<in> set pkgs)
      \<longrightarrow> (\<exists>w i. findCycle h pkgs = Inr (drop i w) \<and> i < length w \<and> distinct w
             \<and> set w \<subseteq> set pkgs \<and> w ! i \<in> set (Dependencies (h (last w)))))
   \<and> ((\<forall>P\<in>set p. set (Dependencies (h P)) \<subseteq> set p)
      \<longrightarrow> (\<exists>q e. topologicalSort h p = Inr (q, e)))"
proof (intro conjI impI)
  assume a: "pkgs \<noteq> [] \<and> (\<forall>P\<in>set pkgs. \<exists>D\<in>set (Dependencies (h P)). D \<in> set pkgs)"
  then have ne: "pkgs \<noteq> []" by simp
  from findCycle_result [OF ne, of h] a
  obtain w i where "findCycle h pkgs = Inr (drop i w)" "i < length w" "isWalk h pkgs w"
    "w ! i \<in> set (Dependencies (h (last w)))"
    by blast
  then show "\<exists>w i. findCycle h pkgs = Inr (drop i w) \<and> i < length w \<and> distinct w
      \<and> set w \<subseteq> set pkgs \<and> w ! i \<in> set (Dependencies (h (last w)))"
    unfolding isWalk_def by blast
next
  assume "\<forall>P\<in>set p. set (Dependencies (h P)) \<subseteq> set p"
  with topologicalSort_loop_no_panic [of "[]" p h]
  show "\<exists>q e. topologicalSort h p = Inr (q, e)"
    by (simp add: topologicalSort_def)
qed

definition heap_abc :: heap where
  "heap_abc = (\<lambda>_. mkPackage ''a'' [1])(1 := mkPackage ''b'' [2], 2 := mkPackage ''c'' [1])"

theorem findCycle_no_nil_dereference_witness:
  "list_all (\<lambda>P. list_ex (\<lambda>D. D \<in> set [1, 2]) (Dependencies (heap_abc P))) [1, 2]
   \<and> findCycle heap_abc [1, 2] = Inr [1, 2]
   \<and> list_all (\<lambda>P. set (Dependencies (heap_abc P)) \<subseteq> set [0, 1, 2]) [0, 1, 2]
   \<and> (\<exists>q e. topologicalSort heap_abc [0, 1, 2] = Inr (q, e))"
proof -
  have pre: "[1, 2] \<noteq> ([] :: ptr list)
      \<and> (\<forall>P\<in>set [1, 2]. \<exists>D\<in>set (Dependencies (heap_abc P)). D \<in> set [1, 2])"
    by (simp add: heap_abc_def mkPackage_def)
  have closed: "\<forall>P\<in>set [0, 1, 2]. set (Dependencies (heap_abc P)) \<subseteq> set [0, 1, 2]"
    by (simp add: heap_abc_def mkPackage_def)
  have run: "findCycle heap_abc [1, 2] = Inr [1, 2]"
    by (simp add: findCycle_def findCycle_loop.simps heap_abc_def mkPackage_def)
  from findCycle_no_nil_dereference [of "[1, 2]" heap_abc "[0, 1, 2]"] pre closed
  have "(\<exists>w i. findCycle heap_abc [1, 2] = Inr (drop i w) \<and> i < length w)
      \<and> (\<exists>q e. topologicalSort heap_abc [0, 1, 2] = Inr (q, e))"
    by blast
  moreover from pre
  have "list_all (\<lambda>P. list_ex (\<lambda>D. D \<in> set [1, 2]) (Dependencies (heap_abc P))) [1, 2]"
    by (simp add: list_all_iff list_ex_iff)
  moreover from closed
  have "list_all (\<lambda>P. set (Dependencies (heap_abc P)) \<subseteq> set [0, 1, 2]) [0, 1, 2]"
    by (simp add: list_all_iff)
  ultimately show ?thesis using run by blast
qed

theorem findCycle_empty_counterexample:
  "list_all (\<lambda>P. list_ex (\<lambda>D. D \<in> set ([] :: ptr list)) (Dependencies (heap_abc P))) []
   \<and> findCycle heap_abc [] = Inl NilPointerDereference"
  by (simp add: findCycle_def)






















section \<open>Properties of checkImport\<close>

lemma legalImportPath_MatchString_iff:
  "legalImportPath_MatchString path \<longleftrightarrow> path \<noteq> [] \<and> (\<forall>c\<in>set path. legalImportPath_class c)"
  by (induction path) auto

lemma strings_HasPrefix_iff: "strings_HasPrefix s prefix \<longleftrightarrow> (\<exists>ys. s = prefix @ ys)"
proof
  assume "strings_HasPrefix s prefix"
  then have "s = prefix @ drop (length prefix) s"
    by (metis append_take_drop_id strings_HasPrefix_def)
  then show "\<exists>ys. s = prefix @ ys" ..
next
  assume "\<exists>ys. s = prefix @ ys"
  then show "strings_HasPrefix s prefix"
    by (auto simp: strings_HasPrefix_def)
qed

lemma strings_Contains_iff: "strings_Contains s substr \<longleftrightarrow> (\<exists>xs ys. s = xs @ substr @ ys)"
proof (induction s)
  case Nil
  then show ?case by auto
next
  case (Cons c s)
  show ?case
  proof
    assume "strings_Contains (c # s) substr"
    then consider "strings_HasPrefix (c # s) substr" | "strings_Contains s substr"
      by auto
    then show "\<exists>xs ys. c # s = xs @ substr @ ys"
    proof cases
      case 1
      then obtain ys where "c # s = [] @ substr @ ys"
        by (auto simp: strings_HasPrefix_iff)
      then show ?thesis by blast
    next
      case 2
      with Cons obtain xs ys where "s = xs @ substr @ ys" by blast
      then have "c # s = (c # xs) @ substr @ ys" by simp
      then show ?thesis by blast
    qed
  next
    assume "\<exists>xs ys. c # s = xs @ substr @ ys"
    then obtain xs ys where eq: "c # s = xs @ substr @ ys" by blast
    show "strings_Contains (c # s) substr"
    proof (cases xs)
      case Nil
      with eq have "strings_HasPrefix (c # s) substr"
        by (auto simp: strings_HasPrefix_iff)
      then show ?thesis by simp
    next
      case (Cons x xs')
      with eq have "s = xs' @ substr @ ys" by simp
      with Cons.IH show ?thesis by auto
    qed
  qed
qed

text \<open>
  C3. checkImport rejects an import path if and only if it is empty, or longer than
  1024 bytes, or contains the substring "..", or is an absolute path (begins with a
  slash), or contains a character outside the class [A-Za-z0-9_.\-/~], or equals
  "syscall" or "unsafe"; every other string is accepted.
\<close>

theorem checkImport_rejects_iff:
  "\<not> checkImport path \<longleftrightarrow>
     path = [] \<or> length path > 1024 \<or> (\<exists>xs ys. path = xs @ ''..'' @ ys)
     \<or> (\<exists>ys. path = ''/'' @ ys) \<or> (\<exists>c\<in>set path. \<not> legalImportPath_class c)
     \<or> path = ''syscall'' \<or> path = ''unsafe''"
proof -
  have "\<not> checkImport path \<longleftrightarrow>
      path = [] \<or> length path > 1024 \<or> strings_Contains path ''..''
      \<or> filepath_IsAbs path \<or> \<not> legalImportPath_MatchString path
      \<or> path = ''syscall'' \<or> path = ''unsafe''"
    unfolding checkImport_def by auto
  also have "\<dots> \<longleftrightarrow>
      path = [] \<or> length path > 1024 \<or> (\<exists>xs ys. path = xs @ ''..'' @ ys)
      \<or> (\<exists>ys. path = ''/'' @ ys) \<or> (\<exists>c\<in>set path. \<not> legalImportPath_class c)
      \<or> path = ''syscall'' \<or> path = ''unsafe''"
    unfolding strings_Contains_iff filepath_IsAbs_def strings_HasPrefix_iff
      legalImportPath_MatchString_iff by blast
  finally show ?thesis .
qed

theorem checkImport_rejects_iff_witness:
  "checkImport ''appengine/datastore'' \<and> checkImport ''github.com/user/my-pkg_2/~x''
   \<and> \<not> checkImport '''' \<and> \<not> checkImport ''a/../b'' \<and> \<not> checkImport ''/etc''
   \<and> \<not> checkImport ''a b'' \<and> \<not> checkImport ''syscall'' \<and> \<not> checkImport ''unsafe''
   \<and> \<not> checkImport (replicate 1025 CHR ''a'') \<and> checkImport (replicate 1024 CHR ''a'')"
proof -
  have cls: "\<forall>c\<in>set (replicate 1024 CHR ''a''). legalImportPath_class c"
    by (simp add: legalImportPath_class_def)
  have "replicate 1024 CHR ''a'' \<noteq> xs @ ''..'' @ ys" for xs ys
  proof
    assume "replicate 1024 CHR ''a'' = xs @ ''..'' @ ys"
    then have "CHR ''.'' \<in> set (replicate 1024 CHR ''a'')"
      by (metis append_Cons in_set_conv_decomp)
    then show False by simp
  qed
  moreover have "replicate 1024 CHR ''a'' \<noteq> ''/'' @ ys" for ys
  proof
    assume "replicate 1024 CHR ''a'' = ''/'' @ ys"
    then have "hd (replicate 1024 CHR ''a'') = CHR ''/''" by simp
    then show False by simp
  qed
  moreover have "length (replicate 1024 CHR ''a'') \<noteq> length ''syscall''"
    "length (replicate 1024 CHR ''a'') \<noteq> length ''unsafe''" by simp_all
  then have "replicate 1024 CHR ''a'' \<noteq> ''syscall''" "replicate 1024 CHR ''a'' \<noteq> ''unsafe''"
    by metis+
  moreover have "replicate 1024 CHR ''a'' \<noteq> []" by simp
  ultimately have big: "checkImport (replicate 1024 CHR ''a'')"
    using checkImport_rejects_iff [of "replicate 1024 CHR ''a''"] cls by auto
  have big': "\<not> checkImport (replicate 1025 CHR ''a'')"
    using checkImport_rejects_iff [of "replicate 1025 CHR ''a''"] by simp
  have small: "checkImport ''appengine/datastore''" "checkImport ''github.com/user/my-pkg_2/~x''"
    "\<not> checkImport ''''" "\<not> checkImport ''a/../b''" "\<not> checkImport ''/etc''"
    "\<not> checkImport ''a b''" "\<not> checkImport ''syscall''" "\<not> checkImport ''unsafe''"
    by (simp_all add: checkImport_def filepath_IsAbs_def strings_HasPrefix_def
        legalImportPath_class_def less_eq_char_def)
  from big big' small show ?thesis by blast
qed

section \<open>Properties of the literal tagging check\<close>

function preorder :: "node \<Rightarrow> node list" where
  "preorder n = n # concat (map preorder (children n))"
  by pat_completeness auto
termination
  by (relation "measure walkMeasure") (auto simp: children_walkMeasure)

declare preorder.simps [simp del]

definition visitAll :: "env \<Rightarrow> compLitChecker \<Rightarrow> node list \<Rightarrow> compLitChecker" where
  "visitAll e c ns = fold (\<lambda>n c'. Visit e c' (Some n)) ns c"

lemma Visit_None: "Visit e c None = c"
  by simp

lemma visitAll_append: "visitAll e c (ns @ ms) = visitAll e (visitAll e c ns) ms"
  by (simp add: visitAll_def)

lemma Walk_children:
  assumes "\<And>ch c. ch \<in> set cs \<Longrightarrow> Walk e c ch = visitAll e c (preorder ch)"
  shows "fold (\<lambda>ch c'. Walk e c' ch) cs c = visitAll e c (concat (map preorder cs))"
  using assms
proof (induction cs arbitrary: c)
  case Nil
  then show ?case by (simp add: visitAll_def)
next
  case (Cons ch cs)
  have "fold (\<lambda>ch c'. Walk e c' ch) (ch # cs) c = fold (\<lambda>ch c'. Walk e c' ch) cs (Walk e c ch)"
    by simp
  also have "\<dots> = visitAll e (Walk e c ch) (concat (map preorder cs))"
    using Cons.prems by (intro Cons.IH) simp
  also have "Walk e c ch = visitAll e c (preorder ch)"
    using Cons.prems by simp
  finally show ?case
    by (simp add: visitAll_append)
qed

lemma Walk_visitAll: "Walk e c n = visitAll e c (preorder n)"
proof (induction n arbitrary: c rule: preorder.induct)
  case (1 n)
  have "fold (\<lambda>ch c'. Walk e c' ch) (children n) (Visit e c (Some n))
      = visitAll e (Visit e c (Some n)) (concat (map preorder (children n)))"
    using "1.IH" by (rule Walk_children)
  then have "Walk e c n = visitAll e (Visit e c (Some n)) (concat (map preorder (children n)))"
    by (subst Walk.simps) (simp add: Visit_None)
  also have "\<dots> = visitAll e c (n # concat (map preorder (children n)))"
    by (simp add: visitAll_def)
  also have "n # concat (map preorder (children n)) = preorder n"
    by (rule preorder.simps [symmetric])
  finally show ?case .
qed

lemma Visit_errors:
  "errors (Visit e c x) = errors c
   \<or> (\<exists>n msg. x = Some n \<and> errors (Visit e c x) = errors c @ [\<lparr>Pos = node_Pos n, Msg = msg\<rparr>])"
  by (cases "(e, c, x)" rule: Visit.cases)
     (auto simp: Let_def errorf_def split: option.splits)

lemma visitAll_errors: "\<exists>rest. errors (visitAll e c ns) = errors c @ rest"
proof (induction ns arbitrary: c)
  case Nil
  then show ?case by (simp add: visitAll_def)
next
  case (Cons n ns)
  from Cons.IH [of "Visit e c (Some n)"]
  obtain rest where "errors (visitAll e (Visit e c (Some n)) ns) = errors (Visit e c (Some n)) @ rest"
    by blast
  moreover from Visit_errors [of e c "Some n"]
  obtain r where "errors (Visit e c (Some n)) = errors c @ r"
    by auto
  ultimately show ?case
    by (simp add: visitAll_def)
qed

definition quoted :: "string \<Rightarrow> string option" where
  "quoted v =
     (if 2 \<le> length v \<and> hd v = CHR 0x22 \<and> last v = CHR 0x22 then Some (butlast (tl v))
      else None)"

definition env_sdk :: env where
  "env_sdk =
     \<lparr>ctxt_Import = (\<lambda>s. s \<in> set [''os'', ''net/http'', ''appengine'']),
      ctxt_ImportDir = (\<lambda>dir. NoGoError),
      strconv_Unquote = quoted,
      parser_ParseFile = (\<lambda>baseDir filename.
        if filename = ''a/a.go'' then
          Inr (1, ''a'',
            [GenDecl 10 IMPORT [ImportSpec None 20 (CHR 0x22 # ''os'' @ [CHR 0x22]),
                                ImportSpec (Some (30, ''web'')) 34
                                  (CHR 0x22 # ''net/http'' @ [CHR 0x22])],
             OtherNode 50
               [CompositeLit (Some (SelectorExpr (Ident 60 ''os'') 63 ''File'')) 67
                  [BasicLit 68 ''1''],
                CompositeLit (Some (SelectorExpr (Ident 80 ''web'') 84 ''Cookie'')) 90
                  [KeyValueExpr (Ident 91 ''Name'') (BasicLit 97 ''2''), BasicLit 100 ''3'']]])
        else if filename = ''b/b.go'' then
          Inr (1, ''b'',
            [GenDecl 10 IMPORT [ImportSpec None 20 (CHR 0x22 # ''os'' @ [CHR 0x22]),
                                ImportSpec None 30 (CHR 0x22 # ''unsafe'' @ [CHR 0x22])],
             OtherNode 50
               [CompositeLit (Some (SelectorExpr (Ident 60 ''os'') 63 ''File'')) 67
                  [BasicLit 68 ''1'']]])
        else Inl ''syntax error''),
      declaredWhitelist = (\<lambda>s. s = ''image.Point''),
      pkgDupes = [],
      goPath = [],
      noBuildFiles = [],
      regexp_Compile = (\<lambda>s. None),
      filepath_Dir = (\<lambda>f. ''.''),
      filepath_Join = (\<lambda>a b. a @ ''/'' @ b),
      gopathPackage = (\<lambda>s. None),
      rand_Intn = 42,
      rangeOrder = (\<lambda>site. rev)\<rparr>"

text \<open>
  C4. For a composite literal whose type is written alias.Type with alias tracked as
  a standard-library import of path pth, Visit flags the literal (appends one error at
  its position) if and only if at least one of its elements is not a key-value entry
  and "pth.Type" is not in the exemption allow-list; otherwise the checker is left as
  it was. In particular a literal all of whose elements are keyed is never flagged,
  whether exempt or not.
\<close>

theorem Visit_flags_untagged_literal:
  assumes "imports c alias = Some pth"
  shows "Visit e c (Some (CompositeLit (Some (SelectorExpr (Ident ip alias) sp ty)) lbrace elts)) =
           (if (\<exists>elt\<in>set elts. \<not> isKeyValueExpr elt)
               \<and> \<not> untaggedLiteralWhitelist e (pth @ ''.'' @ ty)
            then c\<lparr>errors := errors c @
                   [\<lparr>Pos = ip, Msg = ''composite struct literal '' @ pth @ ''.'' @ ty
                       @ '' with untagged fields''\<rparr>]\<rparr>
            else c)
         \<and> ((\<forall>elt\<in>set elts. isKeyValueExpr elt) \<longrightarrow>
              Visit e c (Some (CompositeLit (Some (SelectorExpr (Ident ip alias) sp ty)) lbrace elts)) = c)"
  using assms by (auto simp: Let_def errorf_def list_all_iff)

theorem Visit_flags_untagged_literal_witness:
  "Visit env_sdk \<lparr>imports = [''os'' \<mapsto> ''os''], errors = []\<rparr>
     (Some (CompositeLit (Some (SelectorExpr (Ident 60 ''os'') 63 ''File'')) 67 [BasicLit 68 ''1'']))
     = \<lparr>imports = [''os'' \<mapsto> ''os''],
        errors = [\<lparr>Pos = 60, Msg = ''composite struct literal os.File with untagged fields''\<rparr>]\<rparr>
   \<and> Visit env_sdk \<lparr>imports = [''os'' \<mapsto> ''os''], errors = []\<rparr>
     (Some (CompositeLit (Some (SelectorExpr (Ident 60 ''os'') 63 ''File'')) 67
        [KeyValueExpr (Ident 68 ''fd'') (BasicLit 72 ''1'')]))
     = \<lparr>imports = [''os'' \<mapsto> ''os''], errors = []\<rparr>
   \<and> Visit env_sdk \<lparr>imports = [''appengine'' \<mapsto> ''appengine''], errors = []\<rparr>
     (Some (CompositeLit (Some (SelectorExpr (Ident 60 ''appengine'') 70 ''MultiError'')) 80
        [BasicLit 81 ''1'']))
     = \<lparr>imports = [''appengine'' \<mapsto> ''appengine''], errors = []\<rparr>"
proof -
  have 1: "imports \<lparr>imports = [''os'' \<mapsto> ''os''], errors = []\<rparr> ''os'' = Some ''os''"
    by simp
  have 2: "imports \<lparr>imports = [''appengine'' \<mapsto> ''appengine''], errors = []\<rparr> ''appengine''
      = Some ''appengine''"
    by simp
  show ?thesis
    using Visit_flags_untagged_literal [OF 1, of env_sdk 60 63 "''File''" 67 "[BasicLit 68 ''1'']"]
      Visit_flags_untagged_literal [OF 1, of env_sdk 60 63 "''File''" 67
        "[KeyValueExpr (Ident 68 ''fd'') (BasicLit 72 ''1'')]"]
      Visit_flags_untagged_literal [OF 2, of env_sdk 60 70 "''MultiError''" 80 "[BasicLit 81 ''1'']"]
    by (simp add: untaggedLiteralWhitelist_def env_sdk_def)
qed

text \<open>
  C9 (amended). For a file that the frontend parsed and whose import declarations
  all passed the import checks: when the walk records one or more literal-tagging
  violations,
  parseFile fails with the error that holds the whole list of them, and succeeds
  otherwise. The walk visits every node of the file in pre-order, each visit leaves
  the errors recorded so far in place and adds at most one, at the position of the
  visited node; so whatever is recorded when a node is visited is still in the list
  parseFile returns: the walk does not stop at the first violation.
\<close>

theorem parseFile_aggregates_violations:
  assumes "parser_ParseFile e baseDir filename = Inr (p, name, decls)"
    and "scanDecls e ([], False) decls = Inr (imps, hasInit)"
  shows "parseFile e baseDir filename =
           (if errors (Walk e newCompLitChecker (AstFile p name decls)) = []
            then Inr \<lparr>Name = filename, PackageName = name, ImportPaths = imps,
                      FileHasInit = hasInit\<rparr>
            else Inl (UntaggedLiterals (errors (Walk e newCompLitChecker (AstFile p name decls)))))
         \<and> Walk e newCompLitChecker (AstFile p name decls) =
             fold (\<lambda>n c. Visit e c (Some n)) (preorder (AstFile p name decls)) newCompLitChecker
         \<and> (\<forall>ns n ns'. preorder (AstFile p name decls) = ns @ n # ns' \<longrightarrow>
               (\<exists>rest. errors (Walk e newCompLitChecker (AstFile p name decls)) =
                  errors (Visit e (fold (\<lambda>n c. Visit e c (Some n)) ns newCompLitChecker) (Some n))
                  @ rest))
         \<and> (\<forall>c n. errors (Visit e c (Some n)) = errors c
               \<or> (\<exists>msg. errors (Visit e c (Some n)) = errors c @ [\<lparr>Pos = node_Pos n, Msg = msg\<rparr>]))"
proof (intro conjI allI impI)
  show "parseFile e baseDir filename =
      (if errors (Walk e newCompLitChecker (AstFile p name decls)) = []
       then Inr \<lparr>Name = filename, PackageName = name, ImportPaths = imps, FileHasInit = hasInit\<rparr>
       else Inl (UntaggedLiterals (errors (Walk e newCompLitChecker (AstFile p name decls)))))"
    using assms by (simp add: parseFile_def Let_def)
next
  show "Walk e newCompLitChecker (AstFile p name decls) =
      fold (\<lambda>n c. Visit e c (Some n)) (preorder (AstFile p name decls)) newCompLitChecker"
    by (simp add: Walk_visitAll visitAll_def)
next
  fix ns n ns'
  assume split: "preorder (AstFile p name decls) = ns @ n # ns'"
  have "Walk e newCompLitChecker (AstFile p name decls)
      = visitAll e (visitAll e newCompLitChecker (ns @ [n])) ns'"
    by (simp add: Walk_visitAll split visitAll_append [symmetric])
  moreover obtain rest where "errors (visitAll e (visitAll e newCompLitChecker (ns @ [n])) ns')
      = errors (visitAll e newCompLitChecker (ns @ [n])) @ rest"
    using visitAll_errors by blast
  ultimately show "\<exists>rest. errors (Walk e newCompLitChecker (AstFile p name decls)) =
      errors (Visit e (fold (\<lambda>n c. Visit e c (Some n)) ns newCompLitChecker) (Some n)) @ rest"
    by (auto simp: visitAll_def)
next
  fix c n
  from Visit_errors [of e c "Some n"]
  show "errors (Visit e c (Some n)) = errors c
      \<or> (\<exists>msg. errors (Visit e c (Some n)) = errors c @ [\<lparr>Pos = node_Pos n, Msg = msg\<rparr>])"
    by auto
qed

theorem parseFile_aggregates_violations_witness:
  "parseFile env_sdk ''/app'' ''a/a.go'' =
     Inl (UntaggedLiterals
       [\<lparr>Pos = 60, Msg = ''composite struct literal os.File with untagged fields''\<rparr>,
        \<lparr>Pos = 80, Msg = ''composite struct literal net/http.Cookie with untagged fields''\<rparr>])"
proof -
  let ?decls = "[GenDecl 10 IMPORT [ImportSpec None 20 (CHR 0x22 # ''os'' @ [CHR 0x22]),
                                ImportSpec (Some (30, ''web'')) 34
                                  (CHR 0x22 # ''net/http'' @ [CHR 0x22])],
             OtherNode 50
               [CompositeLit (Some (SelectorExpr (Ident 60 ''os'') 63 ''File'')) 67
                  [BasicLit 68 ''1''],
                CompositeLit (Some (SelectorExpr (Ident 80 ''web'') 84 ''Cookie'')) 90
                  [KeyValueExpr (Ident 91 ''Name'') (BasicLit 97 ''2''), BasicLit 100 ''3'']]]"
  have parsed: "parser_ParseFile env_sdk ''/app'' ''a/a.go'' = Inr (1, ''a'', ?decls)"
    by (simp add: env_sdk_def)
  have scanned: "scanDecls env_sdk ([], False) ?decls = Inr ([''os'', ''net/http''], False)"
    by (simp add: env_sdk_def quoted_def checkImport_def filepath_IsAbs_def
        strings_HasPrefix_def legalImportPath_class_def less_eq_char_def)
  have walked: "errors (Walk env_sdk newCompLitChecker (AstFile 1 ''a'' ?decls)) =
      [\<lparr>Pos = 60, Msg = ''composite struct literal os.File with untagged fields''\<rparr>,
       \<lparr>Pos = 80, Msg = ''composite struct literal net/http.Cookie with untagged fields''\<rparr>]"
    by (simp add: Walk_visitAll visitAll_def preorder.simps newCompLitChecker_def env_sdk_def
        quoted_def isStandardPackage_def strings_HasPrefix_def filepath_Base_def
        untaggedLiteralWhitelist_def errorf_def Let_def)
  from parseFile_aggregates_violations [OF parsed scanned] walked show ?thesis
    by simp
qed

theorem parseFile_bad_import_first_counterexample:
  "parser_ParseFile env_sdk ''/app'' ''b/b.go'' =
     Inr (1, ''b'',
       [GenDecl 10 IMPORT [ImportSpec None 20 (CHR 0x22 # ''os'' @ [CHR 0x22]),
                           ImportSpec None 30 (CHR 0x22 # ''unsafe'' @ [CHR 0x22])],
        OtherNode 50
          [CompositeLit (Some (SelectorExpr (Ident 60 ''os'') 63 ''File'')) 67
             [BasicLit 68 ''1'']]])
   \<and> errors (Walk env_sdk newCompLitChecker (AstFile 1 ''b''
       [GenDecl 10 IMPORT [ImportSpec None 20 (CHR 0x22 # ''os'' @ [CHR 0x22]),
                           ImportSpec None 30 (CHR 0x22 # ''unsafe'' @ [CHR 0x22])],
        OtherNode 50
          [CompositeLit (Some (SelectorExpr (Ident 60 ''os'') 63 ''File'')) 67
             [BasicLit 68 ''1'']]])) =
       [\<lparr>Pos = 60, Msg = ''composite struct literal os.File with untagged fields''\<rparr>]
   \<and> parseFile env_sdk ''/app'' ''b/b.go'' = Inl (BadImport ''unsafe'')"
  by (simp add: parseFile_def Walk_visitAll visitAll_def preorder.simps newCompLitChecker_def
      env_sdk_def quoted_def isStandardPackage_def strings_HasPrefix_def filepath_Base_def
      untaggedLiteralWhitelist_def errorf_def Let_def checkImport_def filepath_IsAbs_def
      legalImportPath_class_def less_eq_char_def)

section \<open>Properties of external resolution\<close>

lemma resolveImportPaths_append:
  "resolveImportPaths e noBuild app (ps @ qs) =
     (case resolveImportPaths e noBuild app ps of
        Inl err \<Rightarrow> Inl err
      | Inr app' \<Rightarrow> resolveImportPaths e noBuild app' qs)"
  by (induction ps arbitrary: app) (auto split: sum.splits)

lemma resolveFiles_append:
  "resolveFiles e noBuild app (fs @ gs) =
     (case resolveFiles e noBuild app fs of
        Inl err \<Rightarrow> Inl err
      | Inr app' \<Rightarrow> resolveFiles e noBuild app' gs)"
  by (induction fs arbitrary: app) (auto split: sum.splits)

definition env_gopath :: "(string \<Rightarrow> bool) option \<Rightarrow> env" where
  "env_gopath re =
     \<lparr>ctxt_Import = (\<lambda>s. s \<in> set [''os'', ''net/http'', ''appengine'']),
      ctxt_ImportDir = (\<lambda>dir. if dir = ''/app/b'' then Imported [''b.go''] else NoGoError),
      strconv_Unquote = quoted,
      parser_ParseFile = (\<lambda>baseDir filename.
        if filename = ''b/b.go'' then
          Inr (1, ''b'', [GenDecl 10 IMPORT [ImportSpec None 20 (CHR 0x22 # ''main'' @ [CHR 0x22])]])
        else Inl ''syntax error''),
      declaredWhitelist = (\<lambda>s. False),
      pkgDupes = [],
      goPath = ''/gopath'',
      noBuildFiles = (case re of None \<Rightarrow> [] | Some _ \<Rightarrow> ''^lib/y/''),
      regexp_Compile = (\<lambda>s. re),
      filepath_Dir = (\<lambda>f. if f = ''b/b.go'' then ''b'' else ''.''),
      filepath_Join = (\<lambda>a b. a @ ''/'' @ b),
      gopathPackage = (\<lambda>s.
        if s = ''lib/x'' then
          Some \<lparr>pkg_Name = ''x'', pkg_GoFiles = [''x.go''], pkg_Imports = [''os'', ''lib/y''],
                pkg_Dir = ''/gopath/src/lib/x''\<rparr>
        else if s = ''lib/y'' then
          Some \<lparr>pkg_Name = ''y'', pkg_GoFiles = [''y.go''], pkg_Imports = [],
                pkg_Dir = ''/gopath/src/lib/y''\<rparr>
        else if s = ''main'' then
          Some \<lparr>pkg_Name = ''main'', pkg_GoFiles = [''tool.go''], pkg_Imports = [],
                pkg_Dir = ''/gopath/src/main''\<rparr>
        else None),
      rand_Intn = 42,
      rangeOrder = (\<lambda>site. rev)\<rparr>"

definition file_a :: File where
  "file_a = \<lparr>Name = ''a/a.go'', PackageName = ''a'', ImportPaths = [''os'', ''lib/x''],
             FileHasInit = True\<rparr>"

text \<open>
  C8. During external resolution, when the lookup of a required import path (not a
  standard package, not yet in the index) finds a package: if no file of the
  package is left after the exclusion filter, the step fails with the error naming
  that import path, and the failure ends the loops over the import paths, the files
  and the packages (also for packages that were themselves added during the pass) and
  is what ParseFiles returns; otherwise the package is constructed with the remaining
  files and its base directory, appended to the packages and registered in the index.
\<close>

theorem addFromGOPATH_all_files_excluded:
  "(\<not> isStandardPackage e path \<and> PackageIndex app path = None
      \<and> gopathPackage e path = Some pkg \<longrightarrow>
      resolveImport e noBuild app path =
        (if gopathFiles e noBuild path pkg = [] then Inl (AllFilesExcluded path)
         else Inr (app\<lparr>mem := (mem app)(brk app :=
                          \<lparr>ImportPath = path, Files = gopathFiles e noBuild path pkg,
                           BaseDir = pkg_Dir pkg, Dependencies = [], HasInit = False,
                           Dupe = False\<rparr>),
                       brk := brk app + 1,
                       Packages := Packages app @ [brk app],
                       PackageIndex := (PackageIndex app)(path \<mapsto> brk app)\<rparr>)))
   \<and> (resolveImportPaths e noBuild app ps = Inr app1 \<and> resolveImport e noBuild app1 path = Inl err
        \<longrightarrow> resolveImportPaths e noBuild app (ps @ path # ps') = Inl err)
   \<and> (resolveFiles e noBuild app fs = Inr app1
        \<and> resolveImportPaths e noBuild app1 (ImportPaths f) = Inl err
        \<longrightarrow> resolveFiles e noBuild app (fs @ f # fs') = Inl err)
   \<and> (i < length (Packages app)
        \<and> resolveFiles e noBuild app (Files (mem app (Packages app ! i))) = Inl err
        \<longrightarrow> addFromGOPATH_loop e noBuild i app = Some (Inl err))
   \<and> (i < length (Packages app)
        \<and> resolveFiles e noBuild app (Files (mem app (Packages app ! i))) = Inr app1
        \<longrightarrow> addFromGOPATH_loop e noBuild i app = addFromGOPATH_loop e noBuild (i + 1) app1)
   \<and> (createPackages e (newApp files) pkgFiles = Inr app \<and> goPath e \<noteq> []
        \<and> (if noBuildFiles e = [] then noBuild = None
            else noBuild \<noteq> None \<and> regexp_Compile e (noBuildFiles e) = noBuild)
        \<and> addFromGOPATH e noBuild app = Some (Inl err)
        \<longrightarrow> ParseFiles_packages e files pkgFiles = Some (Inl err))"
proof (intro conjI impI)
  assume "\<not> isStandardPackage e path \<and> PackageIndex app path = None
      \<and> gopathPackage e path = Some pkg"
  then show "resolveImport e noBuild app path =
        (if gopathFiles e noBuild path pkg = [] then Inl (AllFilesExcluded path)
         else Inr (app\<lparr>mem := (mem app)(brk app :=
                          \<lparr>ImportPath = path, Files = gopathFiles e noBuild path pkg,
                           BaseDir = pkg_Dir pkg, Dependencies = [], HasInit = False,
                           Dupe = False\<rparr>),
                       brk := brk app + 1,
                       Packages := Packages app @ [brk app],
                       PackageIndex := (PackageIndex app)(path \<mapsto> brk app)\<rparr>))"
    by (simp add: resolveImport_def Let_def)
next
  assume "resolveImportPaths e noBuild app ps = Inr app1
      \<and> resolveImport e noBuild app1 path = Inl err"
  then show "resolveImportPaths e noBuild app (ps @ path # ps') = Inl err"
    by (simp add: resolveImportPaths_append)
next
  assume "resolveFiles e noBuild app fs = Inr app1
      \<and> resolveImportPaths e noBuild app1 (ImportPaths f) = Inl err"
  then show "resolveFiles e noBuild app (fs @ f # fs') = Inl err"
    by (simp add: resolveFiles_append)
next
  assume "i < length (Packages app)
      \<and> resolveFiles e noBuild app (Files (mem app (Packages app ! i))) = Inl err"
  then show "addFromGOPATH_loop e noBuild i app = Some (Inl err)"
    by (subst addFromGOPATH_loop.simps) simp
next
  assume "i < length (Packages app)
      \<and> resolveFiles e noBuild app (Files (mem app (Packages app ! i))) = Inr app1"
  then show "addFromGOPATH_loop e noBuild i app = addFromGOPATH_loop e noBuild (i + 1) app1"
    by (subst addFromGOPATH_loop.simps) simp
next
  assume a: "createPackages e (newApp files) pkgFiles = Inr app \<and> goPath e \<noteq> []
      \<and> (if noBuildFiles e = [] then noBuild = None
          else noBuild \<noteq> None \<and> regexp_Compile e (noBuildFiles e) = noBuild)
      \<and> addFromGOPATH e noBuild app = Some (Inl err)"
  show "ParseFiles_packages e files pkgFiles = Some (Inl err)"
  proof (cases "noBuildFiles e = []")
    case True
    with a have "noBuild = None" "addFromGOPATH e None app = Some (Inl err)" by auto
    with a True show ?thesis by (simp add: ParseFiles_packages_def)
  next
    case False
    with a obtain re where "noBuild = Some re" "regexp_Compile e (noBuildFiles e) = Some re"
      by auto
    moreover with a have "addFromGOPATH e (Some re) app = Some (Inl err)" by simp
    ultimately show ?thesis using a False by (simp add: ParseFiles_packages_def)
  qed
qed

definition re_lib_y :: "string \<Rightarrow> bool" where
  "re_lib_y s = strings_HasPrefix s ''lib/y/''"

lemma env_gopath_fields:
  "ctxt_Import (env_gopath re) = (\<lambda>s. s \<in> set [''os'', ''net/http'', ''appengine''])"
  "ctxt_ImportDir (env_gopath re) =
     (\<lambda>dir. if dir = ''/app/b'' then Imported [''b.go''] else NoGoError)"
  "strconv_Unquote (env_gopath re) = quoted"
  "parser_ParseFile (env_gopath re) = (\<lambda>baseDir filename.
     if filename = ''b/b.go'' then
       Inr (1, ''b'', [GenDecl 10 IMPORT [ImportSpec None 20 (CHR 0x22 # ''main'' @ [CHR 0x22])]])
     else Inl ''syntax error'')"
  "declaredWhitelist (env_gopath re) = (\<lambda>s. False)"
  "pkgDupes (env_gopath re) = []"
  "goPath (env_gopath re) = ''/gopath''"
  "noBuildFiles (env_gopath re) = (case re of None \<Rightarrow> [] | Some _ \<Rightarrow> ''^lib/y/'')"
  "regexp_Compile (env_gopath re) = (\<lambda>s. re)"
  "filepath_Dir (env_gopath re) = (\<lambda>f. if f = ''b/b.go'' then ''b'' else ''.'')"
  "filepath_Join (env_gopath re) = (\<lambda>a b. a @ ''/'' @ b)"
  "gopathPackage (env_gopath re) = (\<lambda>s.
     if s = ''lib/x'' then
       Some \<lparr>pkg_Name = ''x'', pkg_GoFiles = [''x.go''], pkg_Imports = [''os'', ''lib/y''],
             pkg_Dir = ''/gopath/src/lib/x''\<rparr>
     else if s = ''lib/y'' then
       Some \<lparr>pkg_Name = ''y'', pkg_GoFiles = [''y.go''], pkg_Imports = [],
             pkg_Dir = ''/gopath/src/lib/y''\<rparr>
     else if s = ''main'' then
       Some \<lparr>pkg_Name = ''main'', pkg_GoFiles = [''tool.go''], pkg_Imports = [],
             pkg_Dir = ''/gopath/src/main''\<rparr>
     else None)"
  "rand_Intn (env_gopath re) = 42"
  "rangeOrder (env_gopath re) = (\<lambda>site. rev)"
  by (simp_all add: env_gopath_def)

lemmas eval_gopath = ParseFiles_packages_def newApp_def env_gopath_fields file_a_def
  addFromGOPATH_def addFromGOPATH_loop.simps resolveImport_def gopathFiles_def
  isStandardPackage_def Let_def filepath_ToSlash_def re_lib_y_def strings_HasPrefix_def
  dependenciesOf_def List.map_filter_def topologicalSort_def topologicalSort_loop.simps
  sweep.simps less_char_def less_eq_char_def

theorem addFromGOPATH_all_files_excluded_witness:
  "resolveImport (env_gopath (Some re_lib_y)) (Some re_lib_y) (newApp []) ''lib/y'' =
     Inl (AllFilesExcluded ''lib/y'')
   \<and> ParseFiles_packages (env_gopath (Some re_lib_y)) [file_a] [(''a'', [file_a])] =
       Some (Inl (AllFilesExcluded ''lib/y''))
   \<and> map_option (map_sum id (\<lambda>app. map (\<lambda>p. (ImportPath (mem app p), BaseDir (mem app p)))
         (Packages app))) (ParseFiles_packages (env_gopath None) [file_a] [(''a'', [file_a])]) =
       Some (Inr [(''lib/y'', ''/gopath/src/lib/y''), (''lib/x'', ''/gopath/src/lib/x''),
                  (''a'', [])])"
proof -
  let ?e = "env_gopath (Some re_lib_y)"
  have pre: "\<not> isStandardPackage ?e ''lib/y'' \<and> PackageIndex (newApp []) ''lib/y'' = None
      \<and> gopathPackage ?e ''lib/y'' =
          Some \<lparr>pkg_Name = ''y'', pkg_GoFiles = [''y.go''], pkg_Imports = [],
                pkg_Dir = ''/gopath/src/lib/y''\<rparr>"
    by (simp add: eval_gopath)
  have none: "gopathFiles ?e (Some re_lib_y) ''lib/y''
      \<lparr>pkg_Name = ''y'', pkg_GoFiles = [''y.go''], pkg_Imports = [],
       pkg_Dir = ''/gopath/src/lib/y''\<rparr> = []"
    by (simp add: eval_gopath)
  from addFromGOPATH_all_files_excluded [of ?e "''lib/y''" "newApp []"
      "\<lparr>pkg_Name = ''y'', pkg_GoFiles = [''y.go''], pkg_Imports = [],
        pkg_Dir = ''/gopath/src/lib/y''\<rparr>" "Some re_lib_y"] pre none
  have "resolveImport ?e (Some re_lib_y) (newApp []) ''lib/y'' = Inl (AllFilesExcluded ''lib/y'')"
    by simp
  moreover have "ParseFiles_packages ?e [file_a] [(''a'', [file_a])] =
      Some (Inl (AllFilesExcluded ''lib/y''))"
    by (simp add: eval_gopath)
  moreover have "map_option (map_sum id (\<lambda>app. map (\<lambda>p. (ImportPath (mem app p),
        BaseDir (mem app p))) (Packages app)))
        (ParseFiles_packages (env_gopath None) [file_a] [(''a'', [file_a])]) =
      Some (Inr [(''lib/y'', ''/gopath/src/lib/y''), (''lib/x'', ''/gopath/src/lib/x''),
                 (''a'', [])])"
    by (simp add: eval_gopath)
  ultimately show ?thesis by blast
qed

section \<open>Properties of local assembly\<close>

lemma decimal_nonempty: "decimal n \<noteq> []"
  by (subst decimal.simps) simp

lemma Sprintf_main05d_not_main: "Sprintf_main05d n \<noteq> ''main''"
proof
  assume "Sprintf_main05d n = ''main''"
  then have "length (Sprintf_main05d n) = 4" by simp
  moreover have "length (decimal n) > 0" using decimal_nonempty [of n] by simp
  ultimately show False by (simp add: Sprintf_main05d_def)
qed

lemma createPackages_no_main:
  assumes "createPackages e app pkgFiles = Inr app'"
    and "\<forall>p\<in>set (Packages app). p < brk app \<and> ImportPath (mem app p) \<noteq> ''main''"
  shows "\<forall>p\<in>set (Packages app'). p < brk app' \<and> ImportPath (mem app' p) \<noteq> ''main''"
  using assms
proof (induction pkgFiles arbitrary: app)
  case Nil
  then show ?case by simp
next
  case (Cons entry rest)
  obtain dirname files where entry: "entry = (dirname, files)" by (cases entry)
  let ?imp = "if dirname = ''.'' then Sprintf_main05d (rand_Intn e) else filepath_ToSlash dirname"
  let ?p = "\<lparr>ImportPath = ?imp, Files = files, BaseDir = [], Dependencies = [],
             HasInit = list_ex FileHasInit files, Dupe = isStandardPackage e ?imp\<rparr>"
  let ?app1 = "app\<lparr>mem := (mem app)(brk app := ?p), brk := brk app + 1,
      Packages := Packages app @ [brk app],
      RootPackages := (if HasInit ?p then RootPackages app @ [brk app] else RootPackages app),
      PackageIndex := (PackageIndex app)(?imp \<mapsto> brk app)\<rparr>"
  from Cons.prems(1) entry have nm: "?imp \<noteq> ''main''"
    by (auto simp: Let_def split: if_splits)
  from Cons.prems(1) entry nm have rec: "createPackages e ?app1 rest = Inr app'"
    by (simp add: Let_def split: if_splits)
  have inv: "\<forall>p\<in>set (Packages ?app1). p < brk ?app1 \<and> ImportPath (mem ?app1 p) \<noteq> ''main''"
    using Cons.prems(2) nm by auto
  from Cons.IH [OF rec inv] show ?case .
qed

lemma populateDependencies_frame:
  "Packages (populateDependencies e app ps) = Packages app
   \<and> PackageIndex (populateDependencies e app ps) = PackageIndex app
   \<and> (\<forall>q. ImportPath (mem (populateDependencies e app ps) q) = ImportPath (mem app q)
          \<and> Files (mem (populateDependencies e app ps) q) = Files (mem app q))"
  by (induction ps arbitrary: app) simp_all

text \<open>
  C5 (amended). No Package that local assembly creates has the reserved import path
  "main": the synthetic import path for top-level files is never the string "main",
  local assembly rejects the directory "main" as fatal, so every package of an App it
  returns has another import path; and when external resolution is disabled (the
  -gopath flag is empty) no Package of a successfully built Application has it.
\<close>

theorem no_local_main_package:
  "Sprintf_main05d n \<noteq> ''main''
   \<and> createPackages e (newApp files) ((''main'', fs) # rest) = Inl TopLevelMainForbidden
   \<and> (createPackages e (newApp files) pkgFiles = Inr app \<longrightarrow>
        (\<forall>p\<in>set (Packages app). ImportPath (mem app p) \<noteq> ''main''))
   \<and> (goPath e = [] \<and> ParseFiles_packages e files pkgFiles = Some (Inr app) \<longrightarrow>
        (\<forall>p\<in>set (Packages app). ImportPath (mem app p) \<noteq> ''main''))"
proof (intro conjI impI)
  show "Sprintf_main05d n \<noteq> ''main''"
    by (rule Sprintf_main05d_not_main)
next
  show "createPackages e (newApp files) ((''main'', fs) # rest) = Inl TopLevelMainForbidden"
    by (simp add: filepath_ToSlash_def)
next
  assume "createPackages e (newApp files) pkgFiles = Inr app"
  from createPackages_no_main [OF this]
  show "\<forall>p\<in>set (Packages app). ImportPath (mem app p) \<noteq> ''main''"
    by (simp add: newApp_def)
next
  assume a: "goPath e = [] \<and> ParseFiles_packages e files pkgFiles = Some (Inr app)"
  then obtain app2 ps where cp: "createPackages e (newApp files) pkgFiles = Inr app2"
    and ts: "topologicalSort (mem (populateDependencies e app2 (Packages app2)))
        (Packages (populateDependencies e app2 (Packages app2))) = Inr (ps, None)"
    and app: "app = (populateDependencies e app2 (Packages app2))\<lparr>Packages := ps\<rparr>"
    by (auto simp: ParseFiles_packages_def Let_def split: sum.splits option.splits)
  from createPackages_no_main [OF cp]
  have nm: "\<forall>p\<in>set (Packages app2). ImportPath (mem app2 p) \<noteq> ''main''"
    by (simp add: newApp_def)
  from ts have "mset ps = mset (Packages (populateDependencies e app2 (Packages app2)))"
    by (auto simp: topologicalSort_def dest: topologicalSort_loop_mset)
  then have "set ps = set (Packages app2)"
    using populateDependencies_frame [of e app2 "Packages app2"] by (auto dest: mset_eq_setD)
  with nm app populateDependencies_frame [of e app2 "Packages app2"]
  show "\<forall>p\<in>set (Packages app). ImportPath (mem app p) \<noteq> ''main''"
    by simp
qed

definition file_b :: File where
  "file_b = \<lparr>Name = ''b/b.go'', PackageName = ''b'', ImportPaths = [''main''],
             FileHasInit = False\<rparr>"

theorem no_local_main_package_witness:
  "createPackages (env_gopath None) (newApp [file_a]) [(''main'', [file_a])] =
     Inl TopLevelMainForbidden
   \<and> Sprintf_main05d 42 = ''main00042''
   \<and> map_sum id (\<lambda>app. map (\<lambda>p. ImportPath (mem app p)) (Packages app))
       (createPackages (env_gopath None) (newApp [file_a]) [(''.'', [file_a]), (''b'', [file_b])])
     = Inr [''main00042'', ''b'']
   \<and> list_all (\<lambda>path. path \<noteq> ''main'') [''main00042'', ''b'']"
proof -
  from no_local_main_package [of 42 "env_gopath None" "[file_a]" "[file_a]" "[]"]
  have top: "createPackages (env_gopath None) (newApp [file_a]) [(''main'', [file_a])] =
      Inl TopLevelMainForbidden"
    by blast
  have d4: "decimal 4 = ''4''"
    by (subst decimal.simps) (simp add: digit_def)
  have d42: "decimal 42 = ''42''"
    by (subst decimal.simps) (simp add: digit_def d4)
  have name: "Sprintf_main05d 42 = ''main00042''"
    by (simp add: Sprintf_main05d_def d42 numeral_3_eq_3)
  have "map_sum id (\<lambda>app. map (\<lambda>p. ImportPath (mem app p)) (Packages app))
      (createPackages (env_gopath None) (newApp [file_a]) [(''.'', [file_a]), (''b'', [file_b])])
     = Inr [''main00042'', ''b'']"
    by (simp add: eval_gopath file_b_def name)
  moreover note name
  moreover have "list_all (\<lambda>path. path \<noteq> ''main'') [''main00042'', ''b'']"
    by simp
  ultimately show ?thesis using top by blast
qed

theorem gopath_main_package_counterexample:
  "map_option (map_sum id (\<lambda>app. map (\<lambda>p. (ImportPath (mem app p), BaseDir (mem app p)))
      (Packages app))) (ParseFiles_packages (env_gopath None) [file_b] [(''b'', [file_b])])
   = Some (Inr [(''main'', ''/gopath/src/main''), (''b'', [])])
   \<and> checkImport ''main''"
  by (simp add: eval_gopath file_b_def checkImport_def filepath_IsAbs_def
      legalImportPath_class_def)

section \<open>Properties of dependency-list population\<close>

definition importedPaths :: "App \<Rightarrow> ptr \<Rightarrow> string set" where
  "importedPaths app p = (\<Union>f\<in>set (Files (mem app p)). set (ImportPaths f))"

lemma dependenciesOf_sorted:
  assumes consistent: "\<forall>path q. PackageIndex app path = Some q \<longrightarrow> ImportPath (mem app q) = path"
    and perm: "\<forall>site ks. mset (rangeOrder e site ks) = mset ks"
  shows "dependenciesOf e app p =
           map (\<lambda>path. the (PackageIndex app path))
             (sorted_list_of_set {path \<in> importedPaths app p. PackageIndex app path \<noteq> None})"
proof -
  let ?idx = "PackageIndex app"
  let ?keys = "remdups (concat (map ImportPaths (Files (mem app p))))"
  let ?ks = "filter (\<lambda>k. ?idx k \<noteq> None) (rangeOrder e (RangeImports p) ?keys)"
  let ?S = "{path \<in> importedPaths app p. ?idx path \<noteq> None}"
  let ?g = "\<lambda>path. the (?idx path)"
  let ?f = "\<lambda>q. ImportPath (mem app q)"
  from perm have ms: "mset (rangeOrder e (RangeImports p) ?keys) = mset ?keys" by blast
  then have "set (rangeOrder e (RangeImports p) ?keys) = set ?keys" by (rule mset_eq_setD)
  then have set_ks: "set ?ks = ?S"
    by (auto simp: importedPaths_def)
  have "distinct (rangeOrder e (RangeImports p) ?keys)"
    using ms by (metis distinct_remdups mset_eq_imp_distinct_iff)
  then have dist: "distinct ?ks" by simp
  have fg: "?f (?g k) = k" if "k \<in> ?S" for k
    using that consistent by auto
  have fin: "finite ?S" using set_ks [symmetric] by simp
  have deps: "dependenciesOf e app p = sort_key ?f (map ?g ?ks)"
    by (simp add: dependenciesOf_def List.map_filter_def comp_def)
  have "sort_key ?f (map ?g ?ks) = map ?g (sorted_list_of_set ?S)"
  proof (rule sort_key_inj_key_eq)
    have "mset (sorted_list_of_set ?S) = mset (sorted_list_of_multiset (mset_set ?S))"
      by (simp only: sorted_list_of_mset_set)
    also have "\<dots> = mset_set ?S"
      by (rule mset_sorted_list_of_multiset)
    also have "\<dots> = mset_set (set ?ks)" using set_ks by simp
    also have "\<dots> = mset ?ks" using dist by (rule mset_set_set)
    finally have "mset ?ks = mset (sorted_list_of_set ?S)" by simp
    then show "mset (map ?g ?ks) = mset (map ?g (sorted_list_of_set ?S))"
      by simp
  next
    show "inj_on ?f (set (map ?g ?ks))"
    proof (rule inj_onI)
      fix x y assume "x \<in> set (map ?g ?ks)" "y \<in> set (map ?g ?ks)" "?f x = ?f y"
      then obtain k l where "k \<in> ?S" "l \<in> ?S" "x = ?g k" "y = ?g l" "?f x = ?f y"
        using set_ks by auto
      with fg [of k] fg [of l] show "x = y" by simp
    qed
  next
    have "map (\<lambda>k. ?f (?g k)) (sorted_list_of_set ?S) = sorted_list_of_set ?S"
    proof (rule map_idI)
      fix k assume "k \<in> set (sorted_list_of_set ?S)"
      with fin have "k \<in> ?S" by simp
      then show "?f (?g k) = k" by (rule fg)
    qed
    then have "map ?f (map ?g (sorted_list_of_set ?S)) = sorted_list_of_set ?S"
      by (simp add: comp_def)
    then show "sorted (map ?f (map ?g (sorted_list_of_set ?S)))"
      by simp
  qed
  with deps show ?thesis by simp
qed

lemma dependenciesOf_frame:
  assumes "PackageIndex app' = PackageIndex app"
    and "\<forall>q. ImportPath (mem app' q) = ImportPath (mem app q)
           \<and> Files (mem app' q) = Files (mem app q)"
  shows "dependenciesOf e app' p = dependenciesOf e app p"
  using assms by (simp add: dependenciesOf_def)

lemma populateDependencies_other:
  "p \<notin> set ps \<Longrightarrow> mem (populateDependencies e app ps) p = mem app p"
  by (induction ps arbitrary: app) simp_all

lemma populateDependencies_deps:
  "p \<in> set ps \<Longrightarrow>
     Dependencies (mem (populateDependencies e app ps) p) = dependenciesOf e app p"
proof (induction ps arbitrary: app)
  case Nil
  then show ?case by simp
next
  case (Cons q ps)
  let ?app1 = "app\<lparr>mem := (mem app)(q := (mem app q)\<lparr>Dependencies := dependenciesOf e app q\<rparr>)\<rparr>"
  have frame: "dependenciesOf e ?app1 p = dependenciesOf e app p"
    by (rule dependenciesOf_frame) simp_all
  show ?case
  proof (cases "p \<in> set ps")
    case True
    from Cons.IH [OF True, of ?app1] frame show ?thesis by simp
  next
    case False
    with Cons.prems have "p = q" by simp
    with False populateDependencies_other [of p ps e ?app1] show ?thesis by simp
  qed
qed

definition indexed :: "App \<Rightarrow> bool" where
  "indexed app \<longleftrightarrow>
     (\<forall>path q. PackageIndex app path = Some q \<longrightarrow> q < brk app \<and> ImportPath (mem app q) = path)"

lemma indexed_newApp: "indexed (newApp files)"
  by (simp add: indexed_def newApp_def)

lemma indexed_alloc:
  assumes "indexed app" and "ImportPath pkg = path"
  shows "indexed (app\<lparr>mem := (mem app)(brk app := pkg), brk := brk app + 1,
            Packages := ps, RootPackages := rs,
            PackageIndex := (PackageIndex app)(path \<mapsto> brk app)\<rparr>)"
  using assms unfolding indexed_def by (auto simp: less_Suc_eq)

lemma createPackages_indexed:
  "createPackages e app pkgFiles = Inr app' \<Longrightarrow> indexed app \<Longrightarrow> indexed app'"
proof (induction pkgFiles arbitrary: app)
  case Nil
  then show ?case by simp
next
  case (Cons entry rest)
  obtain dirname files where entry: "entry = (dirname, files)" by (cases entry)
  let ?imp = "if dirname = ''.'' then Sprintf_main05d (rand_Intn e) else filepath_ToSlash dirname"
  let ?p = "\<lparr>ImportPath = ?imp, Files = files, BaseDir = [], Dependencies = [],
             HasInit = list_ex FileHasInit files, Dupe = isStandardPackage e ?imp\<rparr>"
  let ?app1 = "app\<lparr>mem := (mem app)(brk app := ?p), brk := brk app + 1,
      Packages := Packages app @ [brk app],
      RootPackages := (if HasInit ?p then RootPackages app @ [brk app] else RootPackages app),
      PackageIndex := (PackageIndex app)(?imp \<mapsto> brk app)\<rparr>"
  from Cons.prems(1) entry have rec: "createPackages e ?app1 rest = Inr app'"
    by (simp add: Let_def split: if_splits)
  have "indexed ?app1"
    using Cons.prems(2) by (intro indexed_alloc) simp_all
  with rec show ?case by (rule Cons.IH)
qed

lemma resolveImport_indexed:
  assumes "resolveImport e noBuild app path = Inr app'" and "indexed app"
  shows "indexed app'"
proof (cases "isStandardPackage e path \<or> PackageIndex app path \<noteq> None")
  case True
  with assms show ?thesis by (simp add: resolveImport_def)
next
  case False
  show ?thesis
  proof (cases "gopathPackage e path")
    case None
    with False assms show ?thesis by (simp add: resolveImport_def)
  next
    case (Some pkg)
    let ?p = "\<lparr>ImportPath = path, Files = gopathFiles e noBuild path pkg, BaseDir = pkg_Dir pkg,
               Dependencies = [], HasInit = False, Dupe = False\<rparr>"
    from False Some assms(1)
    have "app' = app\<lparr>mem := (mem app)(brk app := ?p), brk := brk app + 1,
        Packages := Packages app @ [brk app], RootPackages := RootPackages app,
        PackageIndex := (PackageIndex app)(path \<mapsto> brk app)\<rparr>"
      by (simp add: resolveImport_def Let_def split: if_splits)
    moreover have "indexed (app\<lparr>mem := (mem app)(brk app := ?p), brk := brk app + 1,
        Packages := Packages app @ [brk app], RootPackages := RootPackages app,
        PackageIndex := (PackageIndex app)(path \<mapsto> brk app)\<rparr>)"
      using assms(2) by (intro indexed_alloc) simp_all
    ultimately show ?thesis by simp
  qed
qed

lemma resolveImportPaths_indexed:
  "resolveImportPaths e noBuild app paths = Inr app' \<Longrightarrow> indexed app \<Longrightarrow> indexed app'"
  by (induction paths arbitrary: app) (auto split: sum.splits dest: resolveImport_indexed)

lemma resolveFiles_indexed:
  "resolveFiles e noBuild app fs = Inr app' \<Longrightarrow> indexed app \<Longrightarrow> indexed app'"
  by (induction fs arbitrary: app) (auto split: sum.splits dest: resolveImportPaths_indexed)

lemma addFromGOPATH_loop_indexed:
  assumes "addFromGOPATH_loop e noBuild i app = Some r"
  shows "indexed app \<longrightarrow> (case r of Inl err \<Rightarrow> True | Inr app' \<Rightarrow> indexed app')"
proof (rule addFromGOPATH_loop.raw_induct
    [where P = "\<lambda>e noBuild i app r.
       indexed app \<longrightarrow> (case r of Inl err \<Rightarrow> True | Inr app' \<Rightarrow> indexed app')", OF _ assms])
  fix loop :: "env \<Rightarrow> (string \<Rightarrow> bool) option \<Rightarrow> nat \<Rightarrow> App \<Rightarrow> (error + App) option"
    and e noBuild i app r
  assume IH: "\<And>e noBuild i app r. loop e noBuild i app = Some r \<Longrightarrow>
      indexed app \<longrightarrow> (case r of Inl err \<Rightarrow> True | Inr app' \<Rightarrow> indexed app')"
    and eq: "(if i < length (Packages app)
      then case resolveFiles e noBuild app (Files (mem app (Packages app ! i))) of
             Inl err \<Rightarrow> Some (Inl err)
           | Inr app' \<Rightarrow> loop e noBuild (i + 1) app'
      else Some (Inr app)) = Some r"
  show "indexed app \<longrightarrow> (case r of Inl err \<Rightarrow> True | Inr app' \<Rightarrow> indexed app')"
  proof (cases "i < length (Packages app)")
    case False
    with eq show ?thesis by auto
  next
    case True
    show ?thesis
    proof (cases "resolveFiles e noBuild app (Files (mem app (Packages app ! i)))")
      case (Inl err)
      with True eq show ?thesis by auto
    next
      case (Inr app1)
      with True eq have "loop e noBuild (i + 1) app1 = Some r" by simp
      from IH [OF this] resolveFiles_indexed [OF Inr] show ?thesis by blast
    qed
  qed
qed

lemma ParseFiles_packages_Inr:
  assumes "ParseFiles_packages e files pkgFiles = Some (Inr built)"
  shows "\<exists>app1 app2 ps. createPackages e (newApp files) pkgFiles = Inr app1
           \<and> (app2 = app1 \<or> (\<exists>nb. addFromGOPATH_loop e nb 0 app1 = Some (Inr app2)))
           \<and> topologicalSort (mem (populateDependencies e app2 (Packages app2)))
                 (Packages (populateDependencies e app2 (Packages app2))) = Inr (ps, None)
           \<and> built = (populateDependencies e app2 (Packages app2))\<lparr>Packages := ps\<rparr>"
proof -
  from assms obtain app1 where cp: "createPackages e (newApp files) pkgFiles = Inr app1"
    by (cases "createPackages e (newApp files) pkgFiles") (auto simp: ParseFiles_packages_def)
  define r where "r =
      (if goPath e \<noteq> [] then
         (if noBuildFiles e \<noteq> [] then
            (case regexp_Compile e (noBuildFiles e) of
               None \<Rightarrow> Some (Inl BadNoBuildFiles)
             | Some re \<Rightarrow> addFromGOPATH e (Some re) app1)
          else addFromGOPATH e None app1)
       else Some (Inr app1))"
  from assms cp have pf: "(case r of
        None \<Rightarrow> None
      | Some (Inl err) \<Rightarrow> Some (Inl err)
      | Some (Inr app2) \<Rightarrow>
          (let app3 = populateDependencies e app2 (Packages app2) in
           case topologicalSort (mem app3) (Packages app3) of
             Inl pn \<Rightarrow> Some (Inl (Panicked pn))
           | Inr (ps, Some msg) \<Rightarrow> Some (Inl (CyclicDependency msg))
           | Inr (ps, None) \<Rightarrow> Some (Inr (app3\<lparr>Packages := ps\<rparr>)))) = Some (Inr built)"
    by (simp add: ParseFiles_packages_def r_def)
  then obtain app2 where r: "r = Some (Inr app2)"
    by (cases r) (auto split: sum.splits)
  with pf obtain ps where ts: "topologicalSort (mem (populateDependencies e app2 (Packages app2)))
        (Packages (populateDependencies e app2 (Packages app2))) = Inr (ps, None)"
      and built: "built = (populateDependencies e app2 (Packages app2))\<lparr>Packages := ps\<rparr>"
    by (auto simp: Let_def split: sum.splits option.splits)
  have "app2 = app1 \<or> (\<exists>nb. addFromGOPATH_loop e nb 0 app1 = Some (Inr app2))"
  proof (cases "goPath e = []")
    case True
    with r show ?thesis by (simp add: r_def)
  next
    case False
    with r have "\<exists>nb. addFromGOPATH e nb app1 = Some (Inr app2)"
      by (auto simp: r_def split: if_splits option.splits)
    then show ?thesis by (simp add: addFromGOPATH_def)
  qed
  with cp ts built show ?thesis by blast
qed

text \<open>
  C6. After dependency-list population every Package's Dependencies list contains
  exactly one entry per distinct import path that appears in any of its Files and is
  present in the PackageIndex, namely the package the index holds for that path, in
  increasing order of import path; paths absent from the index produce no entry, and
  the step returns no error. This holds for any App whose index maps each path to a
  package of that path, whatever order the runtime ranges over the map of imports in,
  and so for every Application that ParseFiles returns.
\<close>

theorem populateDependencies_sorted_deduplicated:
  assumes "\<forall>site ks. mset (rangeOrder e site ks) = mset ks"
  shows "(indexed app \<and> p \<in> set (Packages app) \<longrightarrow>
            Dependencies (mem (populateDependencies e app (Packages app)) p) =
              map (\<lambda>path. the (PackageIndex app path))
                (sorted_list_of_set
                   {path \<in> importedPaths app p. PackageIndex app path \<noteq> None})
          \<and> map (\<lambda>q. ImportPath (mem (populateDependencies e app (Packages app)) q))
                (Dependencies (mem (populateDependencies e app (Packages app)) p)) =
              sorted_list_of_set {path \<in> importedPaths app p. PackageIndex app path \<noteq> None}
          \<and> PackageIndex (populateDependencies e app (Packages app)) = PackageIndex app
          \<and> Files (mem (populateDependencies e app (Packages app)) p) = Files (mem app p))
         \<and> (ParseFiles_packages e files pkgFiles = Some (Inr built) \<and> p \<in> set (Packages built) \<longrightarrow>
            Dependencies (mem built p) =
              map (\<lambda>path. the (PackageIndex built path))
                (sorted_list_of_set
                   {path \<in> importedPaths built p. PackageIndex built path \<noteq> None})
          \<and> map (\<lambda>q. ImportPath (mem built q)) (Dependencies (mem built p)) =
              sorted_list_of_set
                {path \<in> importedPaths built p. PackageIndex built path \<noteq> None})"
proof -
  have main: "Dependencies (mem (populateDependencies e app (Packages app)) p) =
        map (\<lambda>path. the (PackageIndex app path))
          (sorted_list_of_set {path \<in> importedPaths app p. PackageIndex app path \<noteq> None})
      \<and> map (\<lambda>q. ImportPath (mem (populateDependencies e app (Packages app)) q))
          (Dependencies (mem (populateDependencies e app (Packages app)) p)) =
        sorted_list_of_set {path \<in> importedPaths app p. PackageIndex app path \<noteq> None}"
    if ix: "indexed app" and p: "p \<in> set (Packages app)" for app :: App and p
  proof -
    let ?S = "{path \<in> importedPaths app p. PackageIndex app path \<noteq> None}"
    from ix have consistent:
      "\<forall>path q. PackageIndex app path = Some q \<longrightarrow> ImportPath (mem app q) = path"
      by (simp add: indexed_def)
    have deps: "Dependencies (mem (populateDependencies e app (Packages app)) p) =
        map (\<lambda>path. the (PackageIndex app path)) (sorted_list_of_set ?S)"
      using populateDependencies_deps [OF p, of e app]
        dependenciesOf_sorted [OF consistent assms, of p] by simp
    have "finite (importedPaths app p)"
      by (simp add: importedPaths_def)
    then have fin: "finite ?S" by simp
    have "map (\<lambda>k. ImportPath (mem app (the (PackageIndex app k)))) (sorted_list_of_set ?S)
        = sorted_list_of_set ?S"
    proof (rule map_idI)
      fix k assume "k \<in> set (sorted_list_of_set ?S)"
      with fin have "k \<in> ?S" by simp
      with consistent show "ImportPath (mem app (the (PackageIndex app k))) = k" by auto
    qed
    then have "map ((\<lambda>q. ImportPath (mem app q)) \<circ> (\<lambda>path. the (PackageIndex app path)))
        (sorted_list_of_set ?S) = sorted_list_of_set ?S"
      by (simp add: comp_def)
    with deps populateDependencies_frame [of e app "Packages app"] show ?thesis
      by simp
  qed
  show ?thesis
  proof (rule conjI; rule impI)
    assume a: "indexed app \<and> p \<in> set (Packages app)"
    then have ix: "indexed app" and p: "p \<in> set (Packages app)" by simp_all
    from main [OF ix p] populateDependencies_frame [of e app "Packages app"]
    show "Dependencies (mem (populateDependencies e app (Packages app)) p) =
        map (\<lambda>path. the (PackageIndex app path))
          (sorted_list_of_set {path \<in> importedPaths app p. PackageIndex app path \<noteq> None})
      \<and> map (\<lambda>q. ImportPath (mem (populateDependencies e app (Packages app)) q))
          (Dependencies (mem (populateDependencies e app (Packages app)) p)) =
        sorted_list_of_set {path \<in> importedPaths app p. PackageIndex app path \<noteq> None}
      \<and> PackageIndex (populateDependencies e app (Packages app)) = PackageIndex app
      \<and> Files (mem (populateDependencies e app (Packages app)) p) = Files (mem app p)"
      by blast
  next
    assume a: "ParseFiles_packages e files pkgFiles = Some (Inr built) \<and> p \<in> set (Packages built)"
    then have pf: "ParseFiles_packages e files pkgFiles = Some (Inr built)" by simp
    from ParseFiles_packages_Inr [OF pf]
    obtain app1 app2 ps where cp: "createPackages e (newApp files) pkgFiles = Inr app1"
      and gp: "app2 = app1 \<or> (\<exists>nb. addFromGOPATH_loop e nb 0 app1 = Some (Inr app2))"
      and ts: "topologicalSort (mem (populateDependencies e app2 (Packages app2)))
          (Packages (populateDependencies e app2 (Packages app2))) = Inr (ps, None)"
      and built: "built = (populateDependencies e app2 (Packages app2))\<lparr>Packages := ps\<rparr>"
      by blast
    from createPackages_indexed [OF cp indexed_newApp] have "indexed app1" .
    with gp have ix: "indexed app2"
      by (auto dest: addFromGOPATH_loop_indexed)
    from ts have "mset ps = mset (Packages (populateDependencies e app2 (Packages app2)))"
      by (auto simp: topologicalSort_def dest: topologicalSort_loop_mset)
    then have "set ps = set (Packages app2)"
      using populateDependencies_frame [of e app2 "Packages app2"] by (auto dest: mset_eq_setD)
    with a built have p: "p \<in> set (Packages app2)" by simp
    have ib: "importedPaths built p = importedPaths app2 p"
      using built populateDependencies_frame [of e app2 "Packages app2"]
      by (simp add: importedPaths_def)
    have pb: "PackageIndex built = PackageIndex app2"
      using built populateDependencies_frame [of e app2 "Packages app2"] by simp
    have mb: "mem built = mem (populateDependencies e app2 (Packages app2))"
      using built by simp
    show "Dependencies (mem built p) =
        map (\<lambda>path. the (PackageIndex built path))
          (sorted_list_of_set
             {path \<in> importedPaths built p. PackageIndex built path \<noteq> None})
      \<and> map (\<lambda>q. ImportPath (mem built q)) (Dependencies (mem built p)) =
          sorted_list_of_set
            {path \<in> importedPaths built p. PackageIndex built path \<noteq> None}"
      unfolding ib pb mb by (rule main [OF ix p])
  qed
qed

definition files_a :: "File list" where
  "files_a =
     [\<lparr>Name = ''a/one.go'', PackageName = ''a'', ImportPaths = [''z/q'', ''b'', ''os''],
       FileHasInit = False\<rparr>,
      \<lparr>Name = ''a/two.go'', PackageName = ''a'', ImportPaths = [''b'', ''c'', ''x/missing''],
       FileHasInit = False\<rparr>]"

definition file_of :: "string \<Rightarrow> File" where
  "file_of name = \<lparr>Name = name @ ''/x.go'', PackageName = name, ImportPaths = [],
                   FileHasInit = False\<rparr>"

definition pkgFiles_a :: "(string \<times> File list) list" where
  "pkgFiles_a =
     [(''a'', files_a), (''z/q'', [file_of ''z/q'']), (''c'', [file_of ''c'']),
      (''b'', [file_of ''b''])]"

theorem populateDependencies_sorted_deduplicated_witness:
  "(\<forall>site ks. mset (rangeOrder (env_gopath None) site ks) = mset ks)
   \<and> (\<exists>built. ParseFiles_packages (env_gopath None) [] pkgFiles_a = Some (Inr built)
         \<and> Packages built = [1, 2, 3, 0]
         \<and> map (\<lambda>q. ImportPath (mem built q)) (Dependencies (mem built 0)) =
             sorted_list_of_set
               {path \<in> importedPaths built 0. PackageIndex built path \<noteq> None}
         \<and> map (\<lambda>q. ImportPath (mem built q)) (Dependencies (mem built 0)) =
             [''b'', ''c'', ''z/q''])"
proof -
  have perm: "\<forall>site ks. mset (rangeOrder (env_gopath None) site ks) = mset ks"
    by (simp add: env_gopath_fields)
  have run: "map_option (map_sum id (\<lambda>app. (Packages app,
        map (\<lambda>q. ImportPath (mem app q)) (Dependencies (mem app 0)))))
        (ParseFiles_packages (env_gopath None) [] pkgFiles_a) =
      Some (Inr ([1, 2, 3, 0], [''b'', ''c'', ''z/q'']))"
    by (simp add: eval_gopath pkgFiles_a_def files_a_def file_of_def)
  then obtain built where built: "ParseFiles_packages (env_gopath None) [] pkgFiles_a = Some (Inr built)"
    and ps: "Packages built = [1, 2, 3, 0]"
    and deps: "map (\<lambda>q. ImportPath (mem built q)) (Dependencies (mem built 0)) =
        [''b'', ''c'', ''z/q'']"
    by (cases "ParseFiles_packages (env_gopath None) [] pkgFiles_a") (auto simp: map_sum_def split: sum.splits)
  from ps have "0 \<in> set (Packages built)" by simp
  with populateDependencies_sorted_deduplicated
      [OF perm, where files = "[]" and pkgFiles = pkgFiles_a and built = built and p = 0] built
  have srt: "map (\<lambda>q. ImportPath (mem built q)) (Dependencies (mem built 0)) =
      sorted_list_of_set {path \<in> importedPaths built 0. PackageIndex built path \<noteq> None}"
    by blast
  have "ParseFiles_packages (env_gopath None) [] pkgFiles_a = Some (Inr built)
      \<and> Packages built = [1, 2, 3, 0]
      \<and> map (\<lambda>q. ImportPath (mem built q)) (Dependencies (mem built 0)) =
          sorted_list_of_set
            {path \<in> importedPaths built 0. PackageIndex built path \<noteq> None}
      \<and> map (\<lambda>q. ImportPath (mem built q)) (Dependencies (mem built 0)) =
          [''b'', ''c'', ''z/q'']"
    using built ps srt deps by (intro conjI)
  then have "\<exists>built. ParseFiles_packages (env_gopath None) [] pkgFiles_a = Some (Inr built)
      \<and> Packages built = [1, 2, 3, 0]
      \<and> map (\<lambda>q. ImportPath (mem built q)) (Dependencies (mem built 0)) =
          sorted_list_of_set
            {path \<in> importedPaths built 0. PackageIndex built path \<noteq> None}
      \<and> map (\<lambda>q. ImportPath (mem built q)) (Dependencies (mem built 0)) =
          [''b'', ''c'', ''z/q'']"
    by (rule exI)
  with perm show ?thesis by (rule conjI)
qed

end
